theory Spec2Isabelle
  imports Complex_Main
begin

section \<open>Numbers of the source\<close>

text \<open>
  The source computes with JavaScript numbers. A number is modelled as a real, or one of the
  three non-finite values. Arithmetic on finite values is exact real arithmetic (no
  rounding, no overflow of a finite result, no signed zero); the non-finite values follow
  the IEEE rules that JavaScript uses.
\<close>

datatype jsnum = Fin real | PInf | NInf | NaN

fun isFinite :: "jsnum \<Rightarrow> bool" where
  "isFinite (Fin _) = True"
| "isFinite _ = False"

fun jneg :: "jsnum \<Rightarrow> jsnum" where
  "jneg (Fin a) = Fin (- a)"
| "jneg PInf = NInf"
| "jneg NInf = PInf"
| "jneg NaN = NaN"

fun jadd :: "jsnum \<Rightarrow> jsnum \<Rightarrow> jsnum" where
  "jadd NaN _ = NaN"
| "jadd _ NaN = NaN"
| "jadd (Fin a) (Fin b) = Fin (a + b)"
| "jadd PInf NInf = NaN"
| "jadd NInf PInf = NaN"
| "jadd PInf _ = PInf"
| "jadd NInf _ = NInf"
| "jadd (Fin _) PInf = PInf"
| "jadd (Fin _) NInf = NInf"

definition jsub :: "jsnum \<Rightarrow> jsnum \<Rightarrow> jsnum" where
  "jsub a b = jadd a (jneg b)"

text \<open>The sign of a number that is not NaN, as \<open>-1\<close>, \<open>0\<close> or \<open>1\<close>.\<close>

fun jsign :: "jsnum \<Rightarrow> int" where
  "jsign (Fin a) = (if a < 0 then - 1 else if a = 0 then 0 else 1)"
| "jsign PInf = 1"
| "jsign NInf = - 1"
| "jsign NaN = 0"

definition signed_inf :: "int \<Rightarrow> jsnum" where
  "signed_inf s = (if s < 0 then NInf else PInf)"

fun jmul :: "jsnum \<Rightarrow> jsnum \<Rightarrow> jsnum" where
  "jmul NaN _ = NaN"
| "jmul _ NaN = NaN"
| "jmul (Fin a) (Fin b) = Fin (a * b)"
| "jmul x y = (if jsign x * jsign y = 0 then NaN else signed_inf (jsign x * jsign y))"

fun jdiv :: "jsnum \<Rightarrow> jsnum \<Rightarrow> jsnum" where
  "jdiv NaN _ = NaN"
| "jdiv _ NaN = NaN"
| "jdiv (Fin a) (Fin b) =
     (if b \<noteq> 0 then Fin (a / b) else if a = 0 then NaN else signed_inf (jsign (Fin a)))"
| "jdiv (Fin a) _ = Fin 0"
| "jdiv x (Fin b) = signed_inf (jsign x * (if b < 0 then - 1 else 1))"
| "jdiv _ _ = NaN"

fun jabs :: "jsnum \<Rightarrow> jsnum" where
  "jabs (Fin a) = Fin \<bar>a\<bar>"
| "jabs PInf = PInf"
| "jabs NInf = PInf"
| "jabs NaN = NaN"

text \<open>The comparisons \<open>a < b\<close> and \<open>a <= b\<close> of the source; both are false on NaN.\<close>

fun jlt :: "jsnum \<Rightarrow> jsnum \<Rightarrow> bool" where
  "jlt NaN _ = False"
| "jlt _ NaN = False"
| "jlt (Fin a) (Fin b) = (a < b)"
| "jlt PInf _ = False"
| "jlt _ PInf = True"
| "jlt NInf NInf = False"
| "jlt NInf _ = True"
| "jlt _ NInf = False"

fun jle :: "jsnum \<Rightarrow> jsnum \<Rightarrow> bool" where
  "jle NaN _ = False"
| "jle _ NaN = False"
| "jle a b = (a = b \<or> jlt a b)"

abbreviation jgt :: "jsnum \<Rightarrow> jsnum \<Rightarrow> bool" where
  "jgt a b \<equiv> jlt b a"

abbreviation jge :: "jsnum \<Rightarrow> jsnum \<Rightarrow> bool" where
  "jge a b \<equiv> jle b a"

text \<open>\<open>Math.pow(x, t)\<close> for an integer exponent \<open>t\<close>.\<close>

fun Math_pow :: "jsnum \<Rightarrow> int \<Rightarrow> jsnum" where
  "Math_pow x t =
     (if t = 0 then Fin 1
      else case x of
        NaN \<Rightarrow> NaN
      | Fin a \<Rightarrow> (if a = 0 \<and> t < 0 then PInf else Fin (a powi t))
      | PInf \<Rightarrow> (if 0 < t then PInf else Fin 0)
      | NInf \<Rightarrow> (if t < 0 then Fin 0 else if even t then PInf else NInf))"

section \<open>The fixed function set\<close>

datatype func = Sin | Cos | Tan | Abs | Id | Sqrt | Exp | Log

definition funsKeys :: "func list" where
  "funsKeys = [Sin, Cos, Tan, Abs, Id, Sqrt, Exp, Log]"

text \<open>The table \<open>funs\<close>: each name with its numeric transform.\<close>

fun funs :: "func \<Rightarrow> jsnum \<Rightarrow> jsnum" where
  "funs Sin x = (case x of Fin a \<Rightarrow> Fin (sin a) | _ \<Rightarrow> NaN)"
| "funs Cos x = (case x of Fin a \<Rightarrow> Fin (cos a) | _ \<Rightarrow> NaN)"
| "funs Tan x = (case x of Fin a \<Rightarrow> Fin (tan a) | _ \<Rightarrow> NaN)"
| "funs Abs x = jabs x"
| "funs Id x = x"
| "funs Sqrt x = (if jlt x (Fin 0) then Fin 0
                  else case x of Fin a \<Rightarrow> Fin (sqrt a) | y \<Rightarrow> y)"
| "funs Exp x = (if jge x (Fin 300) then Fin (exp 300)
                 else case x of Fin a \<Rightarrow> Fin (exp a) | NInf \<Rightarrow> Fin 0 | y \<Rightarrow> y)"
| "funs Log x = (if jle x (Fin 0) then Fin 0
                 else case x of Fin a \<Rightarrow> Fin (ln a) | y \<Rightarrow> y)"

section \<open>The IT model\<close>

text \<open>
  The object of the source: parallel arrays \<open>terms\<close>, \<open>funcs\<close>, \<open>coeffs\<close>, the cached
  \<open>length\<close> (here \<open>len\<close>) and the \<open>score\<close>, which is absent (\<open>None\<close>) until a fit
  assigns it.
\<close>

record IT =
  terms :: "int list list"
  funcs :: "func list"
  coeffs :: "jsnum list"
  len :: nat
  score :: "real option"

text \<open>
  The structural invariant of the data model: the three arrays have \<open>len\<close> entries, and
  every exponent vector has one entry per variable.
\<close>

definition aligned :: "IT \<Rightarrow> bool" where
  "aligned m \<longleftrightarrow> length (terms m) = len m \<and> length (funcs m) = len m \<and> length (coeffs m) = len m"

definition wf_IT :: "nat \<Rightarrow> IT \<Rightarrow> bool" where
  "wf_IT nvars m \<longleftrightarrow> aligned m \<and> (\<forall>t \<in> set (terms m). length t = nvars)"

definition buildRootIT :: "nat \<Rightarrow> IT" where
  "buildRootIT nvars =
     \<lparr> terms = map (\<lambda>termIdx. map (\<lambda>tIdx. if termIdx = tIdx then 1 else 0) [0..<nvars]) [0..<nvars],
       funcs = replicate nvars Id,
       coeffs = replicate nvars (Fin 1),
       len = nvars,
       score = None \<rparr>"

text \<open>
  \<open>copyIT\<close> clones the three arrays and carries \<open>length\<close> and \<open>score\<close> over. Values
  have no identity here, so the clone is the same value; where the source depends on which
  object is mutated, the model says so at the call.
\<close>

definition copyIT :: "IT \<Rightarrow> IT" where
  "copyIT m = \<lparr> terms = map (\<lambda>term. term) (terms m), funcs = funcs m, coeffs = coeffs m,
                 len = len m, score = score m \<rparr>"

section \<open>Evaluation\<close>

text \<open>\<open>zip(X, term).map(pow).reduce(prod, 1)\<close>: the product of the powers, from the left.\<close>

definition term_value :: "jsnum list \<Rightarrow> int list \<Rightarrow> jsnum" where
  "term_value X term = foldl jmul (Fin 1) (map (\<lambda>(x, t). Math_pow x t) (zip X term))"

definition evalIT :: "IT \<Rightarrow> jsnum list \<Rightarrow> jsnum" where
  "evalIT m X =
     foldl jadd (Fin 0)
       (map (\<lambda>(c, f, term). jmul c (funs f (term_value X term)))
            (zip (coeffs m) (zip (funcs m) (terms m))))"

text \<open>
  The formula of the specification, written with indices: the sum over the terms \<open>i\<close> of
  \<open>coeffs[i] * funcs[i](\<Prod>v. X[v] ^ terms[i][v])\<close>, both taken in index order.
\<close>

definition spec_product :: "jsnum list \<Rightarrow> int list \<Rightarrow> jsnum" where
  "spec_product X term = foldl (\<lambda>acc v. jmul acc (Math_pow (X ! v) (term ! v))) (Fin 1) [0..<length X]"

definition spec_evaluate :: "IT \<Rightarrow> jsnum list \<Rightarrow> jsnum" where
  "spec_evaluate m X =
     foldl (\<lambda>acc i. jadd acc (jmul (coeffs m ! i) (funs (funcs m ! i) (spec_product X (terms m ! i)))))
       (Fin 0) [0..<len m]"


lemma zip_as_index_map:
  "length xs = length ys \<Longrightarrow> zip xs ys = map (\<lambda>i. (xs ! i, ys ! i)) [0..<length xs]"
  by (rule nth_equalityI) auto

lemma term_value_spec_product:
  assumes "length term = length X"
  shows "term_value X term = spec_product X term"
proof -
  have "zip X term = map (\<lambda>v. (X ! v, term ! v)) [0..<length X]"
    using assms by (simp add: zip_as_index_map)
  then show ?thesis
    by (simp add: term_value_def spec_product_def foldl_map)
qed

lemma zip3_as_index_map:
  assumes "length cs = n" "length fs = n" "length ts = n"
  shows "zip cs (zip fs ts) = map (\<lambda>i. (cs ! i, fs ! i, ts ! i)) [0..<n]"
  using assms by (intro nth_equalityI) auto

text \<open>
  Claim C2. For every model whose arrays are aligned and whose exponent vectors have one
  entry per component of \<open>X\<close>, \<open>evalIT\<close> returns the sum over the terms \<open>i\<close> of
  \<open>coeffs[i] * funcs[i](\<Prod>v. X[v] ^ terms[i][v])\<close>; the root model of two variables
  has terms \<open>[[1,0],[0,1]]\<close>, functions \<open>[id,id]\<close>, coefficients \<open>[1,1]\<close> and evaluates
  to \<open>5\<close> at \<open>X = [2,3]\<close>.
\<close>

theorem evalIT_is_weighted_sum:
  "(aligned m \<and> (\<forall>t \<in> set (terms m). length t = length X) \<longrightarrow> evalIT m X = spec_evaluate m X)
   \<and> terms (buildRootIT 2) = [[1, 0], [0, 1]] \<and> funcs (buildRootIT 2) = [Id, Id]
   \<and> coeffs (buildRootIT 2) = [Fin 1, Fin 1]
   \<and> evalIT (buildRootIT 2) [Fin 2, Fin 3] = Fin 5"
proof -
  have gen: "evalIT m X = spec_evaluate m X"
    if al: "aligned m" and tl: "\<forall>t \<in> set (terms m). length t = length X"
  proof -
    have z: "zip (coeffs m) (zip (funcs m) (terms m))
          = map (\<lambda>i. (coeffs m ! i, funcs m ! i, terms m ! i)) [0..<len m]"
      using al by (simp add: aligned_def zip3_as_index_map)
    have tv: "term_value X (terms m ! i) = spec_product X (terms m ! i)" if "i < len m" for i
      using that al tl by (simp add: aligned_def term_value_spec_product)
    have "evalIT m X = foldl (\<lambda>acc i. jadd acc (jmul (coeffs m ! i)
              (funs (funcs m ! i) (term_value X (terms m ! i))))) (Fin 0) [0..<len m]"
      by (simp add: evalIT_def z foldl_map)
    also have "\<dots> = spec_evaluate m X"
      unfolding spec_evaluate_def
      by (rule foldl_cong) (auto simp: tv)
    finally show ?thesis .
  qed
  have shape: "terms (buildRootIT 2) = [[1, 0], [0, 1]] \<and> funcs (buildRootIT 2) = [Id, Id]
      \<and> coeffs (buildRootIT 2) = [Fin 1, Fin 1]"
    by (simp add: buildRootIT_def upt_rec numeral_2_eq_2)
  have five: "evalIT (buildRootIT 2) [Fin 2, Fin 3] = Fin 5"
    by (simp add: evalIT_def buildRootIT_def term_value_def upt_rec numeral_2_eq_2)
  from gen shape five show ?thesis by blast
qed

theorem evalIT_is_weighted_sum_witness:
  "aligned (buildRootIT 2) \<and> list_all (\<lambda>t. length t = length [Fin 2, Fin 3]) (terms (buildRootIT 2))
   \<and> spec_evaluate (buildRootIT 2) [Fin 2, Fin 3] = Fin 5"
proof -
  have a: "aligned (buildRootIT 2)"
    by (simp add: aligned_def buildRootIT_def)
  have t: "\<forall>t \<in> set (terms (buildRootIT 2)). length t = length [Fin 2, Fin 3]"
    by (simp add: buildRootIT_def upt_rec numeral_2_eq_2)
  note c = evalIT_is_weighted_sum [of "buildRootIT 2" "[Fin 2, Fin 3]"]
  have e: "evalIT (buildRootIT 2) [Fin 2, Fin 3] = spec_evaluate (buildRootIT 2) [Fin 2, Fin 3]"
    using c a t by blast
  have f: "evalIT (buildRootIT 2) [Fin 2, Fin 3] = Fin 5"
    using c by blast
  have "spec_evaluate (buildRootIT 2) [Fin 2, Fin 3] = Fin 5"
    using e [symmetric] f by (rule trans)
  moreover have "list_all (\<lambda>t. length t = length [Fin 2, Fin 3]) (terms (buildRootIT 2))"
    using t by (simp only: list_all_iff)
  ultimately show ?thesis using a by blast
qed


section \<open>Failures\<close>

text \<open>
  The ways a call of the source stops without a value: the exceptions of the language, the
  exception of the matrix library, and three ends of the model itself. \<open>OutsideModel\<close>
  stands where the source goes on with a value that the types used here do not hold: an
  array with holes, after a write past its end. \<open>NoMoreDraws\<close> stands where the finite
  list that plays \<open>Math.random\<close> is used up, or holds a number outside \<open>[0, 1)\<close>.
  \<open>Diverges\<close> is the loop that never ends: a pass of a \<open>while\<close> loop that leaves its
  state as it found it.
\<close>

datatype js_error = TypeError | RangeError | MathError | OutsideModel | NoMoreDraws | Diverges

text \<open>Sequencing of calls that may fail.\<close>

definition and_then :: "js_error + 'a \<Rightarrow> ('a \<Rightarrow> js_error + 'b) \<Rightarrow> js_error + 'b" where
  "and_then r f = (case r of Inl e \<Rightarrow> Inl e | Inr x \<Rightarrow> f x)"

section \<open>Helpers of the source\<close>

text \<open>
  \<open>range(start, stop, step)\<close> on integers. \<open>Array(n)\<close> raises a RangeError unless
  \<open>n\<close> is a length, that is an integer from \<open>0\<close> to \<open>2^32 - 1\<close>; the quotient by a
  zero step is infinite or NaN, which is no length either.
\<close>

definition range :: "int \<Rightarrow> int \<Rightarrow> int \<Rightarrow> js_error + int list" where
  "range start stop step =
     (if step = 0 then Inl RangeError
      else let n = \<lceil>real_of_int (stop - start) / real_of_int step\<rceil> in
        if n < 0 \<or> 2 ^ 32 - 1 < n then Inl RangeError
        else let arr = map (\<lambda>y. start + int y * step) [0..<nat n] in
          Inr (if length arr = 0 then [start] else arr))"

text \<open>
  \<open>xs.some(body)\<close> with the state the callback updates: the callback runs on each element in
  turn and the loop stops after the first call that returns true. The result is the state
  and the value of \<open>some\<close>: whether a call returned true.
\<close>

fun js_some :: "('s \<Rightarrow> 'a \<Rightarrow> js_error + ('s \<times> bool)) \<Rightarrow> 's \<Rightarrow> 'a list \<Rightarrow> js_error + ('s \<times> bool)" where
  "js_some body s [] = Inr (s, False)"
| "js_some body s (x # xs) =
     (case body s x of
        Inl e \<Rightarrow> Inl e
      | Inr (s', stop) \<Rightarrow> if stop then Inr (s', True) else js_some body s' xs)"

text \<open>Reading an array at an index: \<open>undefined\<close> (\<open>None\<close>) out of range.\<close>

definition nth_opt :: "'a list \<Rightarrow> nat \<Rightarrow> 'a option" where
  "nth_opt xs i = (if i < length xs then Some (xs ! i) else None)"

text \<open>\<open>bestScore\<close>, the reducer: the current element wins only with a strictly greater score;
  a comparison with an absent score is false.\<close>

definition score_gt :: "real option \<Rightarrow> real option \<Rightarrow> bool" where
  "score_gt a b = (case (a, b) of (Some x, Some y) \<Rightarrow> y < x | _ \<Rightarrow> False)"

definition bestScore :: "IT \<Rightarrow> IT \<Rightarrow> IT" where
  "bestScore bestExp currentExp = (if score_gt (score currentExp) (score bestExp) then currentExp else bestExp)"

text \<open>\<open>xs.reduce(bestScore)\<close>, with no initial value: a TypeError on the empty array.\<close>

definition reduce_bestScore :: "IT list \<Rightarrow> js_error + IT" where
  "reduce_bestScore xs = (case xs of [] \<Rightarrow> Inl TypeError | x # rest \<Rightarrow> Inr (foldl bestScore x rest))"

section \<open>Composition and sanitizing\<close>

record newTerm =
  nt_term :: "int list"
  nt_func :: func
  nt_coeff :: "jsnum option"

definition composeIT :: "IT \<Rightarrow> newTerm \<Rightarrow> IT" where
  "composeIT m nt =
     m\<lparr> terms := terms m @ [nt_term nt],
        funcs := funcs m @ [nt_func nt],
        coeffs := coeffs m @ [case nt_coeff nt of Some c \<Rightarrow> c | None \<Rightarrow> Fin 1],
        len := len m + 1 \<rparr>"

definition all_zero :: "int list \<Rightarrow> bool" where
  "all_zero term = list_all (\<lambda>t. t = 0) term"

text \<open>\<open>zip(term, terms[i]).every(([t1, t2]) => t1 == t2)\<close>\<close>

definition same_term :: "int list \<Rightarrow> int list \<Rightarrow> bool" where
  "same_term term other = list_all (\<lambda>(t1, t2). t1 = t2) (zip term other)"

text \<open>
  The inner loop of \<open>sanitizeIT\<close> at \<open>tIndex\<close>: the later indices \<open>i < IT.length\<close> whose
  exponents and function equal those at \<open>tIndex\<close>. Each of them pushes \<open>tIndex\<close> once.
\<close>

definition later_duplicates :: "IT \<Rightarrow> nat \<Rightarrow> nat list" where
  "later_duplicates m tIndex =
     filter (\<lambda>i. same_term (terms m ! tIndex) (terms m ! i) \<and> nth_opt (funcs m) tIndex = nth_opt (funcs m) i)
       [Suc tIndex..<len m]"

definition pushed :: "IT \<Rightarrow> nat \<Rightarrow> nat list" where
  "pushed m tIndex =
     (if all_zero (terms m ! tIndex) then [tIndex]
      else replicate (length (later_duplicates m tIndex)) tIndex)"

text \<open>
  The list \<open>toRemove\<close> after the first loop. When \<open>IT.length\<close> exceeds the number of terms,
  the inner loop of the first term that is not all-zero reaches \<open>terms[i] = undefined\<close> and
  \<open>zip\<close> raises a TypeError.
\<close>

definition toRemove :: "IT \<Rightarrow> js_error + nat list" where
  "toRemove m =
     (if length (terms m) < len m \<and> list_ex (\<lambda>term. \<not> all_zero term) (terms m) then Inl TypeError
      else Inr (concat (map (pushed m) [0..<length (terms m)])))"

text \<open>\<open>xs.splice(index, 1)\<close>: nothing happens at an index past the end.\<close>

definition splice1 :: "nat \<Rightarrow> 'a list \<Rightarrow> 'a list" where
  "splice1 index xs = take index xs @ drop (Suc index) xs"

text \<open>\<open>toRemove.reverse().forEach(splice)\<close> on one array.\<close>

definition splice_all :: "nat list \<Rightarrow> 'a list \<Rightarrow> 'a list" where
  "splice_all rs xs = foldl (\<lambda>acc index. splice1 index acc) xs (rev rs)"

text \<open>The object \<open>IT\<close> after the splices and the update of \<open>length\<close>.\<close>

definition pruned :: "IT \<Rightarrow> nat list \<Rightarrow> IT" where
  "pruned m rs =
     m\<lparr> terms := splice_all rs (terms m),
        coeffs := splice_all rs (coeffs m),
        funcs := splice_all rs (funcs m),
        len := length (splice_all rs (terms m)) \<rparr>"

definition sanitizeIT :: "IT \<Rightarrow> js_error + IT" where
  "sanitizeIT m =
     (let backup = copyIT m in
      case toRemove m of
        Inl e \<Rightarrow> Inl e
      | Inr rs \<Rightarrow> Inr (if len (pruned m rs) = 0 then backup else pruned m rs))"

text \<open>
  The original positions of the entries that are left by the splices: the same splices on
  the list of positions.
\<close>

definition survivors :: "IT \<Rightarrow> nat list \<Rightarrow> nat list" where
  "survivors m rs = splice_all rs [0..<length (terms m)]"

lemma splice_all_Nil: "splice_all [] xs = xs"
  by (simp add: splice_all_def)

lemma splice_all_Cons: "splice_all (a # rs) xs = splice1 a (splice_all rs xs)"
  by (simp add: splice_all_def)

lemma splice1_map: "splice1 i (map f xs) = map f (splice1 i xs)"
  by (simp add: splice1_def take_map drop_map)

lemma splice_all_map: "splice_all rs (map f xs) = map f (splice_all rs xs)"
  by (induction rs) (simp_all add: splice_all_Nil splice_all_Cons splice1_map)

lemma splice_all_positions: "splice_all rs xs = map (\<lambda>k. xs ! k) (splice_all rs [0..<length xs])"
proof -
  have "splice_all rs xs = splice_all rs (map (\<lambda>k. xs ! k) [0..<length xs])"
    by (simp add: map_nth)
  then show ?thesis by (simp only: splice_all_map)
qed

lemma splice1_sorted_wrt: "sorted_wrt P xs \<Longrightarrow> sorted_wrt P (splice1 i xs)"
proof -
  assume s: "sorted_wrt P xs"
  have "xs = take i xs @ drop i xs" by simp
  then have "sorted_wrt P (take i xs @ drop i xs)" using s by simp
  then have a: "sorted_wrt P (take i xs)" and b: "sorted_wrt P (drop i xs)"
    and c: "\<forall>x\<in>set (take i xs). \<forall>y\<in>set (drop i xs). P x y"
    by (auto simp only: sorted_wrt_append)
  have d: "set (drop (Suc i) xs) \<subseteq> set (drop i xs)"
    by (metis drop_Suc set_drop_subset tl_drop drop_drop plus_1_eq_Suc)
  have "sorted_wrt P (drop (Suc i) xs)" using s by (rule sorted_wrt_drop)
  with a c d show ?thesis unfolding splice1_def sorted_wrt_append by blast
qed

lemma splice1_set: "set (splice1 i xs) \<subseteq> set xs"
  unfolding splice1_def by (auto dest: in_set_takeD in_set_dropD)

lemma survivors_invariant:
  assumes "sorted rs"
  shows "sorted_wrt (<) (splice_all rs [0..<n])
       \<and> set (splice_all rs [0..<n]) \<subseteq> {0..<n} - set rs
       \<and> (\<forall>lo\<le>n. (\<forall>x\<in>set rs. lo \<le> x) \<longrightarrow> take lo (splice_all rs [0..<n]) = [0..<lo])"
  using assms
proof (induction rs)
  case Nil
  then show ?case by (simp add: splice_all_Nil take_upt)
next
  case (Cons a rs)
  let ?S' = "splice_all rs [0..<n]"
  let ?S = "splice_all (a # rs) [0..<n]"
  have srt: "sorted rs" and low: "\<forall>x\<in>set rs. a \<le> x" using Cons.prems by auto
  from Cons.IH[OF srt] have s': "sorted_wrt (<) ?S'" and sub': "set ?S' \<subseteq> {0..<n} - set rs"
    and pre': "\<And>lo. lo \<le> n \<Longrightarrow> (\<forall>x\<in>set rs. lo \<le> x) \<Longrightarrow> take lo ?S' = [0..<lo]"
    by auto
  have S: "?S = splice1 a ?S'" by (simp add: splice_all_Cons)
  have 1: "sorted_wrt (<) ?S" unfolding S using s' by (rule splice1_sorted_wrt)
  have 2: "set ?S \<subseteq> {0..<n} - set (a # rs)"
  proof -
    have "a \<notin> set ?S"
    proof (cases "a < n")
      case False
      then show ?thesis using sub' splice1_set[of a ?S'] unfolding S by auto
    next
      case True
      then have tk: "take a ?S' = [0..<a]" using pre'[of a] low by simp
      have dist: "distinct ?S'" using s' by (simp add: strict_sorted_iff)
      show ?thesis
      proof
        assume "a \<in> set ?S"
        then have aS': "a \<in> set ?S'" using splice1_set[of a ?S'] unfolding S by auto
        then obtain p where p: "p < length ?S'" "?S' ! p = a" by (auto simp: in_set_conv_nth)
        have la: "a \<le> length ?S'" using tk by (metis length_take length_upt min.cobounded1 diff_zero)
        have "p = a"
        proof (rule ccontr)
          assume ne: "p \<noteq> a"
          show False
          proof (cases "p < a")
            case True
            then have "?S' ! p = take a ?S' ! p" by simp
            also have "\<dots> = p" using tk True by simp
            finally show False using p ne by simp
          next
            case False
            then have ap: "a < p" using ne by simp
            then have "?S' ! a < ?S' ! p" using s' p(1) by (simp add: sorted_wrt_iff_nth_less)
            moreover have "take (Suc a) ?S' ! a = ?S' ! a" by simp
            moreover have "a < length ?S'" using ap p(1) by simp
            ultimately have lt: "?S' ! a < a" using p(2) by simp
            have "a > 0 \<Longrightarrow> ?S' ! (a - 1) < ?S' ! a" using s' \<open>a < length ?S'\<close>
              by (simp add: sorted_wrt_iff_nth_less)
            moreover have "a > 0 \<Longrightarrow> ?S' ! (a - 1) = a - 1"
              using tk by (metis diff_less nth_take nth_upt add_0 zero_less_one)
            ultimately show False using lt by (cases "a = 0") auto
          qed
        qed
        then have "?S' ! a = a" "a < length ?S'" using p by auto
        then have "?S' = take a ?S' @ a # drop (Suc a) ?S'"
          by (metis id_take_nth_drop)
        then have "a \<notin> set (take a ?S') \<and> a \<notin> set (drop (Suc a) ?S')"
          using dist by (metis distinct_append distinct.simps(2) not_distinct_conv_prefix append.assoc append_Cons in_set_conv_decomp)
        then have "a \<notin> set ?S" unfolding S splice1_def by simp
        then show False using \<open>a \<in> set ?S\<close> by simp
      qed
    qed
    moreover have "set ?S \<subseteq> set ?S'" unfolding S by (rule splice1_set)
    ultimately show ?thesis using sub' by auto
  qed
  have 3: "take lo ?S = [0..<lo]" if lo: "lo \<le> n" and all: "\<forall>x\<in>set (a # rs). lo \<le> x" for lo
  proof -
    have loa: "lo \<le> a" and lors: "\<forall>x\<in>set rs. lo \<le> x" using all by auto
    have t': "take lo ?S' = [0..<lo]" using pre'[OF lo lors] .
    have "take lo ?S = take lo (take a ?S' @ drop (Suc a) ?S')" unfolding S splice1_def ..
    also have "\<dots> = take lo ?S'"
    proof (cases "a \<le> length ?S'")
      case True
      then show ?thesis using loa by (simp add: min_def)
    next
      case False
      then show ?thesis by simp
    qed
    finally show ?thesis using t' by simp
  qed
  from 1 2 3 show ?case by blast
qed

lemma sorted_constant: "\<forall>y\<in>set xs. y = (c::nat) \<Longrightarrow> sorted xs"
  by (induction xs) auto

lemma sorted_concat_blocks:
  assumes "\<And>i. \<forall>x\<in>set (f i). x = i"
  shows "sorted (concat (map f [0..<n]))"
proof (induction n)
  case 0
  then show ?case by simp
next
  case (Suc n)
  have eq: "x = y" if "x \<in> set (f y)" for x y using assms that by blast
  have a: "\<forall>x\<in>set (concat (map f [0..<n])). x < n" by (auto dest: eq)
  have b: "\<forall>y\<in>set (f n). y = n" using assms by blast
  have "sorted (f n)" using b by (rule sorted_constant)
  moreover have "\<forall>x\<in>set (concat (map f [0..<n])). \<forall>y\<in>set (f n). x \<le> y"
    using a b by (metis less_imp_le)
  ultimately show ?case using Suc by (simp add: sorted_append)
qed

lemma set_pushed:
  "set (pushed m t) = (if all_zero (terms m ! t) \<or> later_duplicates m t \<noteq> [] then {t} else {})"
  by (auto simp: pushed_def)

lemma sorted_pushed_all: "sorted (concat (map (pushed m) [0..<n]))"
  by (rule sorted_concat_blocks) (auto simp: set_pushed split: if_splits)

lemma set_pushed_all:
  "set (concat (map (pushed m) [0..<n])) = {t. t < n \<and> (all_zero (terms m ! t) \<or> later_duplicates m t \<noteq> [])}"
  by (auto simp: set_pushed split: if_splits)

lemma toRemove_aligned:
  "length (terms m) = len m \<Longrightarrow> toRemove m = Inr (concat (map (pushed m) [0..<len m]))"
  by (simp add: toRemove_def)

lemma survivors_are_last:
  assumes "toRemove m = Inr rs"
  shows "sorted_wrt (<) (survivors m rs)"
    and "set (survivors m rs) \<subseteq> {k. k < length (terms m) \<and> \<not> all_zero (terms m ! k) \<and> later_duplicates m k = []}"
proof -
  have rs: "rs = concat (map (pushed m) [0..<length (terms m)])"
    using assms by (auto simp: toRemove_def split: if_splits)
  have s: "sorted rs" unfolding rs by (rule sorted_pushed_all)
  from survivors_invariant[OF s, of "length (terms m)"]
  show "sorted_wrt (<) (survivors m rs)" by (simp add: survivors_def)
  from survivors_invariant[OF s, of "length (terms m)"]
  have "set (survivors m rs) \<subseteq> {0..<length (terms m)} - set rs" by (simp add: survivors_def)
  then show "set (survivors m rs) \<subseteq> {k. k < length (terms m) \<and> \<not> all_zero (terms m ! k) \<and> later_duplicates m k = []}"
    unfolding rs set_pushed_all by auto
qed

lemma pruned_by_positions:
  assumes "aligned m"
  shows "terms (pruned m rs) = map (\<lambda>k. terms m ! k) (survivors m rs)"
    and "funcs (pruned m rs) = map (\<lambda>k. funcs m ! k) (survivors m rs)"
    and "coeffs (pruned m rs) = map (\<lambda>k. coeffs m ! k) (survivors m rs)"
    and "len (pruned m rs) = length (survivors m rs)"
proof -
  have l: "length (funcs m) = length (terms m)" "length (coeffs m) = length (terms m)"
    using assms by (simp_all add: aligned_def)
  have t: "terms (pruned m rs) = splice_all rs (terms m)"
    and f: "funcs (pruned m rs) = splice_all rs (funcs m)"
    and c: "coeffs (pruned m rs) = splice_all rs (coeffs m)"
    and n: "len (pruned m rs) = length (splice_all rs (terms m))"
    by (simp_all add: pruned_def)
  show "terms (pruned m rs) = map (\<lambda>k. terms m ! k) (survivors m rs)"
    unfolding t survivors_def by (rule splice_all_positions)
  then show "len (pruned m rs) = length (survivors m rs)"
    unfolding n t by simp
  show "funcs (pruned m rs) = map (\<lambda>k. funcs m ! k) (survivors m rs)"
    unfolding f survivors_def l(1)[symmetric] by (rule splice_all_positions)
  show "coeffs (pruned m rs) = map (\<lambda>k. coeffs m ! k) (survivors m rs)"
    unfolding c survivors_def l(2)[symmetric] by (rule splice_all_positions)
qed

lemma splice_all_distinct:
  assumes "sorted rs" "distinct rs" "set rs \<subseteq> {0..<n}"
  shows "splice_all rs [0..<n] = filter (\<lambda>k. k \<notin> set rs) [0..<n]"
  using assms
proof (induction rs)
  case Nil
  then show ?case by (simp add: splice_all_Nil)
next
  case (Cons a rs)
  then have IH: "splice_all rs [0..<n] = filter (\<lambda>k. k \<notin> set rs) [0..<n]" by simp
  have an: "a < n" using Cons.prems by simp
  have a_in: "a \<notin> set rs" using Cons.prems by simp
  have le: "\<forall>x\<in>set rs. a \<le> x" using Cons.prems by simp
  have lt: "\<forall>x\<in>set rs. a < x"
  proof
    fix x assume x: "x \<in> set rs"
    then have "a \<le> x" using le by blast
    moreover have "a \<noteq> x" using x a_in by blast
    ultimately show "a < x" by simp
  qed
  have split: "[0..<n] = [0..<a] @ a # [Suc a..<n]"
  proof -
    have "[0..<n] = [0..<a] @ [a..<n]" using upt_add_eq_append[of 0 a "n - a"] an by simp
    then show ?thesis using an by (simp add: upt_conv_Cons)
  qed
  let ?P = "\<lambda>k. k \<notin> set rs"
  let ?Q = "\<lambda>k. k \<notin> set (a # rs)"
  have f1: "filter ?P [0..<a] = [0..<a]"
    unfolding filter_id_conv using lt by fastforce
  have f2: "filter ?Q [0..<a] = [0..<a]"
    unfolding filter_id_conv using lt by fastforce
  have f3: "filter ?Q [Suc a..<n] = filter ?P [Suc a..<n]"
    by (rule filter_cong) auto
  have "filter ?P [0..<n] = filter ?P ([0..<a] @ a # [Suc a..<n])"
    by (subst split) (rule refl)
  also have "\<dots> = filter ?P [0..<a] @ a # filter ?P [Suc a..<n]"
    using a_in by simp
  finally have P: "filter ?P [0..<n] = [0..<a] @ a # filter ?P [Suc a..<n]"
    by (simp only: f1)
  have "filter ?Q [0..<n] = filter ?Q ([0..<a] @ a # [Suc a..<n])"
    by (subst split) (rule refl)
  also have "\<dots> = filter ?Q [0..<a] @ filter ?Q [Suc a..<n]"
    by simp
  finally have Q: "filter ?Q [0..<n] = [0..<a] @ filter ?P [Suc a..<n]"
    by (simp only: f2 f3)
  have la: "length [0..<a] = a" by simp
  have "splice1 a ([0..<a] @ a # filter ?P [Suc a..<n]) = [0..<a] @ filter ?P [Suc a..<n]"
    unfolding splice1_def by (simp del: upt_Suc)
  then show ?case unfolding splice_all_Cons IH P Q .
qed

lemma distinct_concat_blocks:
  assumes "\<And>i. \<forall>x\<in>set (f i). x = i" "\<And>i. i < n \<Longrightarrow> length (f i) \<le> 1"
  shows "distinct (concat (map f [0..<n]))"
  using assms(2)
proof (induction n)
  case 0
  then show ?case by simp
next
  case (Suc n)
  have eq: "x = y" if "x \<in> set (f y)" for x y using assms(1) that by blast
  have a: "\<forall>x\<in>set (concat (map f [0..<n])). x < n" by (auto dest: eq)
  have b: "\<forall>y\<in>set (f n). y = n" using assms(1) by blast
  have "length (f n) \<le> 1" using Suc.prems[of n] by simp
  then have d: "distinct (f n)" by (cases "f n") auto
  have IH: "distinct (concat (map f [0..<n]))"
  proof (rule Suc.IH)
    fix i assume "i < n"
    then have "i < Suc n" by simp
    then show "length (f i) \<le> 1" by (rule Suc.prems)
  qed
  have disj: "set (concat (map f [0..<n])) \<inter> set (f n) = {}"
    using a b by fastforce
  have "concat (map f [0..<Suc n]) = concat (map f [0..<n]) @ f n" by simp
  then show ?case using IH d disj by (simp only: distinct_append simp_thms)
qed

lemma survivors_exact:
  assumes "toRemove m = Inr rs" and "\<forall>t<length (terms m). length (pushed m t) \<le> 1"
  shows "survivors m rs = filter (\<lambda>k. \<not> all_zero (terms m ! k) \<and> later_duplicates m k = []) [0..<length (terms m)]"
proof -
  let ?n = "length (terms m)"
  have rs: "rs = concat (map (pushed m) [0..<?n])"
    using assms(1) by (auto simp: toRemove_def split: if_splits)
  have s: "sorted rs" unfolding rs by (rule sorted_pushed_all)
  have d: "distinct rs" unfolding rs
    by (rule distinct_concat_blocks) (use assms(2) in \<open>auto simp: set_pushed split: if_splits\<close>)
  have sub: "set rs \<subseteq> {0..<?n}" unfolding rs set_pushed_all by auto
  have "survivors m rs = filter (\<lambda>k. k \<notin> set rs) [0..<?n]"
    unfolding survivors_def by (rule splice_all_distinct[OF s d sub])
  also have "\<dots> = filter (\<lambda>k. \<not> all_zero (terms m ! k) \<and> later_duplicates m k = []) [0..<?n]"
  proof (rule filter_cong)
    fix k assume "k \<in> set [0..<?n]"
    then have "k < ?n" by simp
    then show "(k \<notin> set rs) = (\<not> all_zero (terms m ! k) \<and> later_duplicates m k = [])"
      unfolding rs set_pushed_all by blast
  qed simp
  finally show ?thesis .
qed

lemma later_duplicates_member:
  assumes "i < j" "j < len m" "same_term (terms m ! i) (terms m ! j)" "nth_opt (funcs m) i = nth_opt (funcs m) j"
  shows "j \<in> set (later_duplicates m i)"
  using assms by (simp add: later_duplicates_def)

definition clean :: "IT \<Rightarrow> bool" where
  "clean m \<longleftrightarrow> (\<forall>k<len m. \<not> all_zero (terms m ! k) \<and> later_duplicates m k = [])"

lemma copyIT_same: "copyIT m = m"
  by (simp add: copyIT_def)

lemma sanitizeIT_cases:
  assumes "toRemove m = Inr rs"
  shows "sanitizeIT m = Inr (if len (pruned m rs) = 0 then m else pruned m rs)"
  using assms by (simp add: sanitizeIT_def copyIT_same Let_def)

lemma pruned_clean:
  assumes al: "aligned m" and rs: "toRemove m = Inr rs"
  shows "clean (pruned m rs)"
  unfolding clean_def
proof (intro allI impI)
  let ?S = "survivors m rs"
  let ?p = "pruned m rs"
  fix k assume "k < len ?p"
  then have k: "k < length ?S" using pruned_by_positions(4)[OF al] by simp
  have srt: "sorted_wrt (<) ?S" using survivors_are_last(1)[OF rs] .
  have last: "\<And>q. q \<in> set ?S \<Longrightarrow> q < length (terms m) \<and> \<not> all_zero (terms m ! q) \<and> later_duplicates m q = []"
    using survivors_are_last(2)[OF rs] by blast
  have tk: "terms ?p ! k = terms m ! (?S ! k)"
    using pruned_by_positions(1)[OF al] k by simp
  have z: "\<not> all_zero (terms ?p ! k)" using last[of "?S ! k"] k tk by simp
  have "later_duplicates ?p k = []"
  proof (rule ccontr)
    assume "later_duplicates ?p k \<noteq> []"
    then obtain j where j: "j \<in> set (later_duplicates ?p k)" by (cases "later_duplicates ?p k") auto
    then have kj: "k < j" and jl: "j < length ?S"
      and st: "same_term (terms ?p ! k) (terms ?p ! j)"
      and fn: "nth_opt (funcs ?p) k = nth_opt (funcs ?p) j"
      using pruned_by_positions(4)[OF al, of rs] by (auto simp: later_duplicates_def)
    have lt: "?S ! k < ?S ! j" using srt kj jl by (simp add: sorted_wrt_iff_nth_less)
    have jm: "?S ! j < len m" using last[of "?S ! j"] jl al by (simp add: aligned_def)
    have tj: "terms ?p ! j = terms m ! (?S ! j)"
      using pruned_by_positions(1)[OF al] jl by simp
    have lf: "length (funcs ?p) = length ?S" using pruned_by_positions(2)[OF al, of rs] by simp
    have fk: "funcs ?p ! k = funcs m ! (?S ! k)" "funcs ?p ! j = funcs m ! (?S ! j)"
      using pruned_by_positions(2)[OF al, of rs] k jl by simp_all
    have "funcs m ! (?S ! k) = funcs m ! (?S ! j)"
      using fn lf k jl fk by (simp add: nth_opt_def)
    moreover have "?S ! k < length (funcs m)" "?S ! j < length (funcs m)"
      using jm lt al by (simp_all add: aligned_def)
    ultimately have "nth_opt (funcs m) (?S ! k) = nth_opt (funcs m) (?S ! j)"
      by (simp add: nth_opt_def)
    then have "?S ! j \<in> set (later_duplicates m (?S ! k))"
      using later_duplicates_member[OF lt jm] st tk tj by simp
    then show False using last[of "?S ! k"] k by simp
  qed
  with z show "\<not> all_zero (terms ?p ! k) \<and> later_duplicates ?p k = []" by simp
qed

text \<open>
  Exponent vectors of one length are the same for \<open>zip\<close> exactly when they are equal, so
  on a well-formed model the tests of the first loop read as follows.
\<close>

lemma same_term_eq: "length a = length b \<Longrightarrow> same_term a b \<longleftrightarrow> a = b"
  unfolding same_term_def by (induction a b rule: list_induct2) auto

lemma length_filter_le_1:
  assumes "distinct xs" and "\<And>x y. x \<in> set xs \<Longrightarrow> y \<in> set xs \<Longrightarrow> P x \<Longrightarrow> P y \<Longrightarrow> x = y"
  shows "length (filter P xs) \<le> 1"
proof (rule ccontr)
  assume "\<not> length (filter P xs) \<le> 1"
  then have l: "1 < length (filter P xs)" by simp
  have d: "distinct (filter P xs)" using assms(1) by simp
  let ?a = "filter P xs ! 0" and ?b = "filter P xs ! 1"
  have "0 < length (filter P xs)" using l by (rule less_trans[OF zero_less_one])
  then have "?a \<in> set (filter P xs)" by (rule nth_mem)
  moreover have "?b \<in> set (filter P xs)" using l by (rule nth_mem)
  ultimately have "?a \<in> set xs" "P ?a" "?b \<in> set xs" "P ?b"
    by (simp_all only: set_filter mem_Collect_eq)
  then have "?a = ?b" using assms(2) by blast
  moreover have "?a \<noteq> ?b"
  proof -
    have z: "0 < length (filter P xs)" using l by (rule less_trans[OF zero_less_one])
    have "(?a = ?b) = ((0::nat) = 1)" using d z l by (rule nth_eq_iff_index_eq)
    then show ?thesis by simp
  qed
  ultimately show False by simp
qed

lemma later_duplicates_wf:
  assumes "wf_IT nvars m" and "d < len m"
  shows "set (later_duplicates m d) =
     {j. d < j \<and> j < len m \<and> terms m ! d = terms m ! j \<and> funcs m ! d = funcs m ! j}"
proof -
  have l: "length (terms m) = len m" "length (funcs m) = len m"
    and tl: "\<And>k. k < len m \<Longrightarrow> length (terms m ! k) = nvars"
    using assms(1) by (simp_all add: wf_IT_def aligned_def)
  have eq: "(same_term (terms m ! d) (terms m ! j) \<and> nth_opt (funcs m) d = nth_opt (funcs m) j)
        = (terms m ! d = terms m ! j \<and> funcs m ! d = funcs m ! j)"
    if "d < j" "j < len m" for j
    using that assms(2) l tl by (simp add: same_term_eq nth_opt_def)
  show ?thesis
  proof (intro set_eqI iffI)
    fix j assume "j \<in> set (later_duplicates m d)"
    then have r: "d < j" "j < len m"
      and p: "same_term (terms m ! d) (terms m ! j) \<and> nth_opt (funcs m) d = nth_opt (funcs m) j"
      by (simp_all add: later_duplicates_def)
    have "terms m ! d = terms m ! j \<and> funcs m ! d = funcs m ! j"
      using p eq[OF r] by blast
    with r show "j \<in> {j. d < j \<and> j < len m \<and> terms m ! d = terms m ! j \<and> funcs m ! d = funcs m ! j}"
      by simp
  next
    fix j assume "j \<in> {j. d < j \<and> j < len m \<and> terms m ! d = terms m ! j \<and> funcs m ! d = funcs m ! j}"
    then have r: "d < j" "j < len m"
      and p: "terms m ! d = terms m ! j \<and> funcs m ! d = funcs m ! j" by simp_all
    have "same_term (terms m ! d) (terms m ! j) \<and> nth_opt (funcs m) d = nth_opt (funcs m) j"
      using p eq[OF r] by blast
    with r show "j \<in> set (later_duplicates m d)" by (simp only: later_duplicates_member)
  qed
qed

lemma all_zero_explicit: "all_zero t \<longleftrightarrow> \<not> (\<exists>e \<in> set t. e \<noteq> 0)"
  by (simp add: all_zero_def list_all_iff)

lemma no_later_explicit:
  assumes "wf_IT nvars m" and "k < len m"
  shows "later_duplicates m k = [] \<longleftrightarrow>
     \<not> (\<exists>q. k < q \<and> q < len m \<and> terms m ! q = terms m ! k \<and> funcs m ! q = funcs m ! k)"
proof -
  have "later_duplicates m k = [] \<longleftrightarrow> set (later_duplicates m k) = {}" by simp
  also have "\<dots> \<longleftrightarrow> {j. k < j \<and> j < len m \<and> terms m ! k = terms m ! j \<and> funcs m ! k = funcs m ! j} = {}"
    by (simp only: later_duplicates_wf[OF assms])
  also have "\<dots> \<longleftrightarrow> \<not> (\<exists>q. k < q \<and> q < len m \<and> terms m ! q = terms m ! k \<and> funcs m ! q = funcs m ! k)"
    by (auto simp: eq_commute)
  finally show ?thesis .
qed

lemma pushed_once:
  assumes wf: "wf_IT nvars m" and t: "t < len m"
    and no3: "\<not> (\<exists>a b c. a < b \<and> b < c \<and> c < len m \<and> (\<exists>e \<in> set (terms m ! a). e \<noteq> 0)
               \<and> terms m ! a = terms m ! b \<and> terms m ! b = terms m ! c
               \<and> funcs m ! a = funcs m ! b \<and> funcs m ! b = funcs m ! c)"
  shows "length (pushed m t) \<le> 1"
proof (cases "all_zero (terms m ! t)")
  case True
  then show ?thesis by (simp add: pushed_def)
next
  case False
  then have nz: "\<exists>e \<in> set (terms m ! t). e \<noteq> 0" by (simp add: all_zero_explicit)
  have "length (later_duplicates m t) \<le> 1"
    unfolding later_duplicates_def
  proof (rule length_filter_le_1)
    show "distinct [Suc t..<len m]" by simp
  next
    fix x y
    assume x: "x \<in> set [Suc t..<len m]" and y: "y \<in> set [Suc t..<len m]"
      and px: "same_term (terms m ! t) (terms m ! x) \<and> nth_opt (funcs m) t = nth_opt (funcs m) x"
      and py: "same_term (terms m ! t) (terms m ! y) \<and> nth_opt (funcs m) t = nth_opt (funcs m) y"
    have xr: "t < x" "x < len m" and yr: "t < y" "y < len m" using x y by simp_all
    have "x \<in> set (later_duplicates m t)" using x px by (simp add: later_duplicates_def)
    then have ex: "terms m ! t = terms m ! x" "funcs m ! t = funcs m ! x"
      using later_duplicates_wf[OF wf t] by simp_all
    have "y \<in> set (later_duplicates m t)" using y py by (simp add: later_duplicates_def)
    then have ey: "terms m ! t = terms m ! y" "funcs m ! t = funcs m ! y"
      using later_duplicates_wf[OF wf t] by simp_all
    show "x = y"
    proof (rule ccontr)
      assume "x \<noteq> y"
      then consider "x < y" | "y < x" by linarith
      then show False
      proof cases
        case 1
        have "t < x \<and> x < y \<and> y < len m \<and> (\<exists>e \<in> set (terms m ! t). e \<noteq> 0)
               \<and> terms m ! t = terms m ! x \<and> terms m ! x = terms m ! y
               \<and> funcs m ! t = funcs m ! x \<and> funcs m ! x = funcs m ! y"
          using xr yr 1 nz ex ey by simp
        then show False using no3 by blast
      next
        case 2
        have "t < y \<and> y < x \<and> x < len m \<and> (\<exists>e \<in> set (terms m ! t). e \<noteq> 0)
               \<and> terms m ! t = terms m ! y \<and> terms m ! y = terms m ! x
               \<and> funcs m ! t = funcs m ! y \<and> funcs m ! y = funcs m ! x"
          using xr yr 2 nz ex ey by simp
        then show False using no3 by blast
      qed
    qed
  qed
  then show ?thesis using False by (simp add: pushed_def)
qed


text \<open>
  Claim C3, as the source has it. In a model whose arrays are aligned and whose exponent
  vectors have one length, let the terms at \<open>i < j\<close> carry equal exponent vectors and equal
  functions. The index that the first loop pushes is the earlier one: the entries left by
  the splices, at the increasing positions \<open>S\<close>, all stood at a term that is not all-zero
  and has no later equal pair, and \<open>i\<close> is not among them. When an entry is left, the model
  returned holds exactly the entries at \<open>S\<close>, in their order; when none is left, the model
  returned is the input as it was, with the entry at \<open>i\<close> and every duplicate still in it.
  When no pair that is not all-zero occurs three times, \<open>S\<close> is exactly the list of the
  last occurrences of the pairs that are not all-zero, and it holds \<open>j\<close> when the pair at
  \<open>i\<close> is not all-zero, so that the model returned holds the term of index \<open>j\<close> and not
  the one of index \<open>i\<close>.
\<close>

theorem sanitizeIT_removes_earlier_duplicate:
  assumes "wf_IT nvars m" and "i < j" and "j < len m"
    and "terms m ! i = terms m ! j" and "funcs m ! i = funcs m ! j"
  shows "\<exists>S. sorted_wrt (<) S
     \<and> (\<forall>k \<in> set S. k < len m \<and> (\<exists>e \<in> set (terms m ! k). e \<noteq> 0)
           \<and> \<not> (\<exists>q. k < q \<and> q < len m \<and> terms m ! q = terms m ! k \<and> funcs m ! q = funcs m ! k))
     \<and> i \<notin> set S
     \<and> sanitizeIT m =
         Inr (if S = [] then m
              else \<lparr> terms = map (\<lambda>k. terms m ! k) S, funcs = map (\<lambda>k. funcs m ! k) S,
                     coeffs = map (\<lambda>k. coeffs m ! k) S, len = length S, score = score m \<rparr>)
     \<and> (\<not> (\<exists>a b c. a < b \<and> b < c \<and> c < len m \<and> (\<exists>e \<in> set (terms m ! a). e \<noteq> 0)
               \<and> terms m ! a = terms m ! b \<and> terms m ! b = terms m ! c
               \<and> funcs m ! a = funcs m ! b \<and> funcs m ! b = funcs m ! c)
         \<longrightarrow> S = filter (\<lambda>k. (\<exists>e \<in> set (terms m ! k). e \<noteq> 0)
                    \<and> \<not> (\<exists>q. k < q \<and> q < len m \<and> terms m ! q = terms m ! k \<and> funcs m ! q = funcs m ! k))
                   [0..<len m]
           \<and> ((\<exists>e \<in> set (terms m ! i). e \<noteq> 0) \<longrightarrow> j \<in> set S))"
proof -
  let ?rs = "concat (map (pushed m) [0..<len m])"
  let ?S = "survivors m ?rs"
  let ?last = "\<lambda>k. (\<exists>e \<in> set (terms m ! k). e \<noteq> 0)
       \<and> \<not> (\<exists>q. k < q \<and> q < len m \<and> terms m ! q = terms m ! k \<and> funcs m ! q = funcs m ! k)"
  have al: "aligned m" using assms(1) by (simp add: wf_IT_def)
  have lt: "length (terms m) = len m" using al by (simp add: aligned_def)
  have rs: "toRemove m = Inr ?rs" using lt by (rule toRemove_aligned)
  have pos: "len (pruned m ?rs) = length ?S" using pruned_by_positions(4)[OF al] .
  have old: "\<And>k. k < len m \<Longrightarrow> (\<not> all_zero (terms m ! k) \<and> later_duplicates m k = []) = ?last k"
    using no_later_explicit[OF assms(1)] by (simp add: all_zero_explicit)
  have sub: "set ?S \<subseteq> {k. k < length (terms m) \<and> \<not> all_zero (terms m ! k) \<and> later_duplicates m k = []}"
    using survivors_are_last(2)[OF rs] .
  have 1: "sorted_wrt (<) ?S" using survivors_are_last(1)[OF rs] .
  have 2: "\<forall>k \<in> set ?S. k < len m \<and> ?last k"
  proof
    fix k assume "k \<in> set ?S"
    then have k: "k < len m" and p: "\<not> all_zero (terms m ! k) \<and> later_duplicates m k = []"
      using sub lt by auto
    from p old[OF k] have "?last k" by blast
    with k show "k < len m \<and> ?last k" by (rule conjI)
  qed
  have il: "i < len m" using assms(2,3) by simp
  have "\<not> ?last i" using assms(2,3,4,5) by auto
  then have 3: "i \<notin> set ?S" using 2 by blast
  have pr: "pruned m ?rs = \<lparr> terms = map (\<lambda>k. terms m ! k) ?S, funcs = map (\<lambda>k. funcs m ! k) ?S,
                     coeffs = map (\<lambda>k. coeffs m ! k) ?S, len = length ?S, score = score m \<rparr>"
    using pruned_by_positions[OF al, of ?rs] by (simp add: pruned_def)
  have 4: "sanitizeIT m =
         Inr (if ?S = [] then m
              else \<lparr> terms = map (\<lambda>k. terms m ! k) ?S, funcs = map (\<lambda>k. funcs m ! k) ?S,
                     coeffs = map (\<lambda>k. coeffs m ! k) ?S, len = length ?S, score = score m \<rparr>)"
    using sanitizeIT_cases[OF rs] pos pr by simp
  have 5: "\<not> (\<exists>a b c. a < b \<and> b < c \<and> c < len m \<and> (\<exists>e \<in> set (terms m ! a). e \<noteq> 0)
               \<and> terms m ! a = terms m ! b \<and> terms m ! b = terms m ! c
               \<and> funcs m ! a = funcs m ! b \<and> funcs m ! b = funcs m ! c)
         \<longrightarrow> ?S = filter ?last [0..<len m] \<and> ((\<exists>e \<in> set (terms m ! i). e \<noteq> 0) \<longrightarrow> j \<in> set ?S)"
  proof
    assume no3: "\<not> (\<exists>a b c. a < b \<and> b < c \<and> c < len m \<and> (\<exists>e \<in> set (terms m ! a). e \<noteq> 0)
               \<and> terms m ! a = terms m ! b \<and> terms m ! b = terms m ! c
               \<and> funcs m ! a = funcs m ! b \<and> funcs m ! b = funcs m ! c)"
    have once: "\<forall>t<length (terms m). length (pushed m t) \<le> 1"
      using pushed_once[OF assms(1) _ no3] lt by simp
    have "?S = filter (\<lambda>k. \<not> all_zero (terms m ! k) \<and> later_duplicates m k = []) [0..<len m]"
      using survivors_exact[OF rs once] lt by simp
    also have "\<dots> = filter ?last [0..<len m]"
      by (rule filter_cong[OF refl]) (simp add: old)
    finally have a: "?S = filter ?last [0..<len m]" .
    have b: "(\<exists>e \<in> set (terms m ! i). e \<noteq> 0) \<longrightarrow> j \<in> set ?S"
    proof
      assume nz: "\<exists>e \<in> set (terms m ! i). e \<noteq> 0"
      have "\<not> (\<exists>q. j < q \<and> q < len m \<and> terms m ! q = terms m ! j \<and> funcs m ! q = funcs m ! j)"
      proof
        assume "\<exists>q. j < q \<and> q < len m \<and> terms m ! q = terms m ! j \<and> funcs m ! q = funcs m ! j"
        then obtain q where "j < q" "q < len m" "terms m ! q = terms m ! j" "funcs m ! q = funcs m ! j"
          by blast
        then have "i < j \<and> j < q \<and> q < len m \<and> (\<exists>e \<in> set (terms m ! i). e \<noteq> 0)
               \<and> terms m ! i = terms m ! j \<and> terms m ! j = terms m ! q
               \<and> funcs m ! i = funcs m ! j \<and> funcs m ! j = funcs m ! q"
          using assms(2,4,5) nz by simp
        then show False using no3 by blast
      qed
      moreover have "\<exists>e \<in> set (terms m ! j). e \<noteq> 0" using nz assms(4) by simp
      ultimately have "?last j" by blast
      then have "j \<in> set (filter ?last [0..<len m])" using assms(3) by simp
      then show "j \<in> set ?S" by (simp only: a)
    qed
    from a b show "?S = filter ?last [0..<len m] \<and> ((\<exists>e \<in> set (terms m ! i). e \<noteq> 0) \<longrightarrow> j \<in> set ?S)"
      by (rule conjI)
  qed
  show ?thesis
    by (rule exI[of _ ?S]) (intro conjI 1 2 3 4 5)
qed

text \<open>
  Three terms, the first and the last equal and told apart by their coefficients \<open>2\<close> and
  \<open>3\<close>, the middle one all-zero: the model returned holds the term that stood at index
  \<open>2\<close>, with coefficient \<open>3\<close>.
\<close>

theorem sanitizeIT_removes_earlier_duplicate_witness:
  "wf_IT 1 \<lparr> terms = [[1], [0], [1]], funcs = [Id, Id, Id], coeffs = [Fin 2, Fin 5, Fin 3], len = 3, score = None \<rparr>
   \<and> (0::nat) < 2
   \<and> 2 < len \<lparr> terms = [[1], [0], [1]], funcs = [Id, Id, Id], coeffs = [Fin 2, Fin 5, Fin 3], len = 3, score = None \<rparr>
   \<and> [[1], [0], [1::int]] ! 0 = [[1], [0], [1]] ! 2 \<and> [Id, Id, Id] ! 0 = [Id, Id, Id] ! 2
   \<and> sanitizeIT \<lparr> terms = [[1], [0], [1]], funcs = [Id, Id, Id], coeffs = [Fin 2, Fin 5, Fin 3], len = 3, score = None \<rparr>
       = Inr \<lparr> terms = [[1]], funcs = [Id], coeffs = [Fin 3], len = 1, score = None \<rparr>"
proof -
  define m where "m = \<lparr> terms = [[1], [0], [1]], funcs = [Id, Id, Id], coeffs = [Fin 2, Fin 5, Fin 3], len = 3, score = None \<rparr>"
  have t: "terms m = [[1], [0], [1]]" and f: "funcs m = [Id, Id, Id]"
    and c: "coeffs m = [Fin 2, Fin 5, Fin 3]" and l: "len m = 3" and s: "score m = None"
    by (simp_all add: m_def)
  have h1: "wf_IT 1 m" by (simp add: wf_IT_def aligned_def t f c l)
  have h2: "(0::nat) < 2" by simp
  have h3: "2 < len m" by (simp add: l)
  have h4: "terms m ! 0 = terms m ! 2" by (simp add: t)
  have h5: "funcs m ! 0 = funcs m ! 2" by (simp add: f)
  have no3: "\<not> (\<exists>a b c. a < b \<and> b < c \<and> c < len m \<and> (\<exists>e \<in> set (terms m ! a). e \<noteq> 0)
               \<and> terms m ! a = terms m ! b \<and> terms m ! b = terms m ! c
               \<and> funcs m ! a = funcs m ! b \<and> funcs m ! b = funcs m ! c)"
  proof
    assume "\<exists>a b c. a < b \<and> b < c \<and> c < len m \<and> (\<exists>e \<in> set (terms m ! a). e \<noteq> 0)
               \<and> terms m ! a = terms m ! b \<and> terms m ! b = terms m ! c
               \<and> funcs m ! a = funcs m ! b \<and> funcs m ! b = funcs m ! c"
    then obtain a b c where o: "a < b" "b < c" "c < len m" and e: "terms m ! a = terms m ! b"
      by blast
    from o have "a = 0" "b = 1" unfolding l by arith+
    with e show False by (simp add: t)
  qed
  have nz: "\<exists>e \<in> set (terms m ! 0). e \<noteq> 0" by (simp add: t)
  obtain S where srt: "sorted_wrt (<) S"
    and last: "\<forall>k \<in> set S. k < len m \<and> (\<exists>e \<in> set (terms m ! k). e \<noteq> 0)
           \<and> \<not> (\<exists>q. k < q \<and> q < len m \<and> terms m ! q = terms m ! k \<and> funcs m ! q = funcs m ! k)"
    and out: "0 \<notin> set S"
    and res: "sanitizeIT m =
         Inr (if S = [] then m
              else \<lparr> terms = map (\<lambda>k. terms m ! k) S, funcs = map (\<lambda>k. funcs m ! k) S,
                     coeffs = map (\<lambda>k. coeffs m ! k) S, len = length S, score = score m \<rparr>)"
    and imp: "\<not> (\<exists>a b c. a < b \<and> b < c \<and> c < len m \<and> (\<exists>e \<in> set (terms m ! a). e \<noteq> 0)
               \<and> terms m ! a = terms m ! b \<and> terms m ! b = terms m ! c
               \<and> funcs m ! a = funcs m ! b \<and> funcs m ! b = funcs m ! c)
         \<longrightarrow> S = filter (\<lambda>k. (\<exists>e \<in> set (terms m ! k). e \<noteq> 0)
                    \<and> \<not> (\<exists>q. k < q \<and> q < len m \<and> terms m ! q = terms m ! k \<and> funcs m ! q = funcs m ! k))
                   [0..<len m]
           \<and> ((\<exists>e \<in> set (terms m ! 0). e \<noteq> 0) \<longrightarrow> 2 \<in> set S)"
    using sanitizeIT_removes_earlier_duplicate[OF h1 h2 h3 h4 h5] by (elim exE conjE)
  from imp [THEN mp, OF no3] have "(\<exists>e \<in> set (terms m ! 0). e \<noteq> 0) \<longrightarrow> 2 \<in> set S"
    by (rule conjunct2)
  from this [THEN mp, OF nz] have kept: "2 \<in> set S" .
  have n1: "1 \<notin> set S"
  proof
    assume "1 \<in> set S"
    with last have "\<exists>e \<in> set (terms m ! 1). e \<noteq> 0" by blast
    then show False by (simp add: t)
  qed
  have only: "k = 2" if "k \<in> set S" for k
  proof -
    have "k < 3" using that last l by simp
    moreover have "k \<noteq> 0"
    proof
      assume "k = 0"
      with that out show False by simp
    qed
    moreover have "k \<noteq> 1"
    proof
      assume "k = 1"
      with that n1 show False by simp
    qed
    ultimately show ?thesis by arith
  qed
  have "set S = {2}"
  proof (intro set_eqI iffI)
    fix k assume "k \<in> set S"
    then have "k = 2" by (rule only)
    then show "k \<in> {2}" by simp
  next
    fix k :: nat assume "k \<in> {2}"
    then have "k = 2" by simp
    with kept show "k \<in> set S" by simp
  qed
  moreover have "distinct S" using srt by (simp add: strict_sorted_iff)
  ultimately have S: "S = [2]"
  proof (cases S)
    case Nil
    with \<open>set S = {2}\<close> show ?thesis by simp
  next
    case (Cons a rest)
    with \<open>set S = {2}\<close> have a: "a = 2" and r: "set rest \<subseteq> {2}" by auto
    from Cons \<open>distinct S\<close> a have "2 \<notin> set rest" by simp
    with r have "rest = []" by (cases rest) auto
    with Cons a show ?thesis by simp
  qed
  have "sanitizeIT m = Inr \<lparr> terms = [[1]], funcs = [Id], coeffs = [Fin 3], len = 1, score = None \<rparr>"
    using res unfolding S by (simp add: t f c s)
  with h1 h2 h3 h4 h5 show ?thesis unfolding m_def by simp
qed

text \<open>
  Two terms with the same exponents and function, told apart by their coefficients \<open>2\<close> and
  \<open>3\<close>: the index pushed is \<open>0\<close>, and the term returned is the one that stood at index
  \<open>1\<close>, with coefficient \<open>3\<close>.
\<close>

theorem sanitizeIT_keeps_later_counterexample:
  "toRemove \<lparr> terms = [[1], [1]], funcs = [Id, Id], coeffs = [Fin 2, Fin 3], len = 2, score = None \<rparr> = Inr [0]
   \<and> survivors \<lparr> terms = [[1], [1]], funcs = [Id, Id], coeffs = [Fin 2, Fin 3], len = 2, score = None \<rparr> [0] = [1]
   \<and> sanitizeIT \<lparr> terms = [[1], [1]], funcs = [Id, Id], coeffs = [Fin 2, Fin 3], len = 2, score = None \<rparr>
       = Inr \<lparr> terms = [[1]], funcs = [Id], coeffs = [Fin 3], len = 1, score = None \<rparr>"
  by (simp add: sanitizeIT_def toRemove_def pushed_def later_duplicates_def all_zero_def same_term_def
      nth_opt_def pruned_def survivors_def splice_all_def splice1_def copyIT_def upt_rec numeral_2_eq_2)

text \<open>
  Claim C4 at three equal terms. Removing the repeated pairs would leave one term, so the
  model would not become empty. The inner loop has no \<open>break\<close>: index \<open>0\<close> is pushed
  twice, the splices \<open>1, 0, 0\<close> remove all three entries, and the backup, with its three
  equal terms, is returned.
\<close>

theorem sanitizeIT_triple_duplicate_returned:
  "toRemove \<lparr> terms = [[1], [1], [1]], funcs = [Id, Id, Id], coeffs = [Fin 1, Fin 1, Fin 1], len = 3, score = None \<rparr>
     = Inr [0, 0, 1]
   \<and> sanitizeIT \<lparr> terms = [[1], [1], [1]], funcs = [Id, Id, Id], coeffs = [Fin 1, Fin 1, Fin 1], len = 3, score = None \<rparr>
     = Inr \<lparr> terms = [[1], [1], [1]], funcs = [Id, Id, Id], coeffs = [Fin 1, Fin 1, Fin 1], len = 3, score = None \<rparr>"
  by (simp add: sanitizeIT_def toRemove_def pushed_def later_duplicates_def all_zero_def same_term_def
      nth_opt_def pruned_def splice_all_def splice1_def copyIT_def upt_rec numeral_3_eq_3)

section \<open>Fitting\<close>

text \<open>
  Modelled from the spec: the matrix library (\<open>math.transpose\<close>, \<open>math.multiply\<close>,
  \<open>math.inv\<close>) is not part of the source. Section 4.2 asks for the normal equations
  \<open>(A\<^sup>T A)\<^sup>-\<^sup>1 A\<^sup>T y\<close> with a failure when \<open>A\<^sup>T A\<close> is not invertible. The
  operations are the exact ones on arrays of rows: the transpose raises on a matrix with
  no columns and leaves the empty array as it is, the product raises on an empty operand and
  on a dimension mismatch, and the inverse is the adjugate over the determinant and raises
  when the matrix is not square or its determinant is zero.
\<close>

type_synonym matrix = "jsnum list list"

definition math_transpose :: "matrix \<Rightarrow> js_error + matrix" where
  "math_transpose A =
     (case A of
        [] \<Rightarrow> Inr []
      | row # _ \<Rightarrow> if row = [] then Inl RangeError
                   else Inr (map (\<lambda>j. map (\<lambda>r. r ! j) A) [0..<length row]))"

definition dot :: "jsnum list \<Rightarrow> jsnum list \<Rightarrow> jsnum" where
  "dot u v = foldl jadd (Fin 0) (map (\<lambda>(a, b). jmul a b) (zip u v))"

definition math_multiply :: "matrix \<Rightarrow> matrix \<Rightarrow> js_error + matrix" where
  "math_multiply A B =
     (if A = [] \<or> B = [] then Inl MathError
      else if length (hd A) \<noteq> length B then Inl RangeError
      else Inr (map (\<lambda>r. map (\<lambda>j. dot r (map (\<lambda>b. b ! j) B)) [0..<length (hd B)]) A))"

function det :: "matrix \<Rightarrow> jsnum" where
  "det [] = Fin 1"
| "det (r # rs) =
     foldl jadd (Fin 0)
       (map (\<lambda>j. jmul (jmul (if even j then Fin 1 else Fin (- 1)) (r ! j)) (det (map (splice1 j) rs)))
            [0..<length r])"
  by pat_completeness auto
termination
  by (relation "measure length") auto

definition cofactor :: "matrix \<Rightarrow> nat \<Rightarrow> nat \<Rightarrow> jsnum" where
  "cofactor M i j = jmul (if even (i + j) then Fin 1 else Fin (- 1)) (det (map (splice1 j) (splice1 i M)))"

definition math_inv :: "matrix \<Rightarrow> js_error + matrix" where
  "math_inv M =
     (if M = [] \<or> \<not> list_all (\<lambda>r. length r = length M) M then Inl RangeError
      else if det M = Fin 0 then Inl MathError
      else Inr (map (\<lambda>i. map (\<lambda>j. jdiv (cofactor M j i) (det M)) [0..<length M]) [0..<length M]))"

text \<open>One row of the design matrix: \<open>zip(IT.funcs, IT.terms).map(...)\<close> at the sample \<open>X\<close>.\<close>

definition design_row :: "IT \<Rightarrow> jsnum list \<Rightarrow> jsnum list" where
  "design_row m X = map (\<lambda>(f, term). funs f (term_value X term)) (zip (funcs m) (terms m))"

text \<open>The body of the \<open>try\<close> block, up to the new coefficients \<open>ws.map(w => w[0])\<close>.\<close>

definition fit_coeffs :: "IT \<Rightarrow> jsnum list list \<Rightarrow> jsnum list \<Rightarrow> js_error + jsnum list" where
  "fit_coeffs m Xs ys =
     (let ysHat = map (\<lambda>y. [y]) ys;
          XsHat = map (design_row m) Xs
      in and_then (math_transpose XsHat) (\<lambda>XsHatT.
         and_then (math_multiply XsHatT XsHat) (\<lambda>p.
         and_then (math_inv p) (\<lambda>q1.
         and_then (math_multiply XsHatT ysHat) (\<lambda>q2.
         and_then (math_multiply q1 q2) (\<lambda>ws.
         Inr (map (\<lambda>w. w ! 0) ws)))))))"

text \<open>The model after the \<open>try\<close>/\<open>catch\<close>: any exception leaves the coefficients as they were.\<close>

definition after_try :: "IT \<Rightarrow> jsnum list list \<Rightarrow> jsnum list \<Rightarrow> IT" where
  "after_try m Xs ys = (case fit_coeffs m Xs ys of Inl _ \<Rightarrow> m | Inr ws \<Rightarrow> m\<lparr>coeffs := ws\<rparr>)"

definition MAE_of :: "IT \<Rightarrow> jsnum list list \<Rightarrow> jsnum list \<Rightarrow> jsnum" where
  "MAE_of m Xs ys =
     jdiv (foldl jadd (Fin 0) (map (\<lambda>(X, y). jabs (jsub (evalIT m X) y)) (zip Xs ys)))
          (Fin (real (length Xs)))"

definition fitIT :: "IT \<Rightarrow> jsnum list list \<Rightarrow> jsnum list \<Rightarrow> IT" where
  "fitIT m Xs ys =
     (let m' = after_try m Xs ys;
          MAE = MAE_of m' Xs ys;
          score = jdiv (Fin 1) (jadd (Fin 1) MAE)
      in m'\<lparr>score := Some (case score of Fin s \<Rightarrow> s | _ \<Rightarrow> 0)\<rparr>)"

text \<open>Numbers that are not negative: a sum of absolute values is one of them.\<close>

fun not_negative :: "jsnum \<Rightarrow> bool" where
  "not_negative (Fin a) = (0 \<le> a)"
| "not_negative NInf = False"
| "not_negative _ = True"

lemma not_negative_jabs: "not_negative (jabs x)"
  by (cases x) simp_all

lemma not_negative_jadd: "not_negative a \<Longrightarrow> not_negative b \<Longrightarrow> not_negative (jadd a b)"
  by (cases a; cases b) simp_all

lemma not_negative_foldl:
  "not_negative acc \<Longrightarrow> \<forall>x \<in> set xs. not_negative x \<Longrightarrow> not_negative (foldl jadd acc xs)"
  by (induction xs arbitrary: acc) (simp_all add: not_negative_jadd)

lemma not_negative_jdiv: "not_negative a \<Longrightarrow> 0 \<le> n \<Longrightarrow> not_negative (jdiv a (Fin n))"
  by (cases a) (simp_all add: signed_inf_def)

lemma not_negative_MAE: "not_negative (MAE_of m Xs ys)"
  unfolding MAE_of_def
  by (rule not_negative_jdiv, rule not_negative_foldl) (auto simp: not_negative_jabs)

lemma score_fitIT:
  "score (fitIT m Xs ys) =
     Some (case jdiv (Fin 1) (jadd (Fin 1) (MAE_of (after_try m Xs ys) Xs ys)) of Fin s \<Rightarrow> s | _ \<Rightarrow> 0)"
  by (simp add: fitIT_def Let_def)

text \<open>
  Claim C5. The score that \<open>fitIT\<close> assigns is \<open>1 / (1 + MAE)\<close> and lies between \<open>0\<close> and
  \<open>1\<close> when the mean absolute error, computed with the coefficients after the \<open>try\<close>
  block, is finite; it is \<open>0\<close> when the mean absolute error is infinite or NaN.
\<close>

theorem fitIT_score_of_MAE:
  "(isFinite (MAE_of (after_try m Xs ys) Xs ys) \<longrightarrow>
      (\<exists>a. MAE_of (after_try m Xs ys) Xs ys = Fin a \<and> score (fitIT m Xs ys) = Some (1 / (1 + a))
         \<and> 0 \<le> 1 / (1 + a) \<and> 1 / (1 + a) \<le> 1))
   \<and> (\<not> isFinite (MAE_of (after_try m Xs ys) Xs ys) \<longrightarrow> score (fitIT m Xs ys) = Some 0)"
proof -
  let ?MAE = "MAE_of (after_try m Xs ys) Xs ys"
  have nn: "not_negative ?MAE" by (rule not_negative_MAE)
  show ?thesis
  proof (cases ?MAE)
    case (Fin a)
    then have a: "0 \<le> a" using nn by simp
    then have "1 + a \<noteq> 0" by simp
    then have "score (fitIT m Xs ys) = Some (1 / (1 + a))"
      by (simp add: score_fitIT Fin)
    moreover have "0 \<le> 1 / (1 + a)" "1 / (1 + a) \<le> 1" using a by simp_all
    ultimately show ?thesis using Fin by simp
  next
    case PInf
    then show ?thesis by (simp add: score_fitIT)
  next
    case NInf
    then show ?thesis using nn by simp
  next
    case NaN
    then show ?thesis by (simp add: score_fitIT)
  qed
qed

lemmas fit_eval = fitIT_def after_try_def fit_coeffs_def design_row_def math_transpose_def
  math_multiply_def math_inv_def cofactor_def dot_def MAE_of_def evalIT_def term_value_def
  and_then_def splice1_def jsub_def upt_rec Let_def

theorem fitIT_score_of_MAE_witness:
  "isFinite (MAE_of (after_try (buildRootIT 1) [[Fin 1], [Fin 2]] [Fin 2, Fin 5]) [[Fin 1], [Fin 2]] [Fin 2, Fin 5])
   \<and> score (fitIT (buildRootIT 1) [[Fin 1], [Fin 2]] [Fin 2, Fin 5]) = Some (10 / 13)
   \<and> \<not> isFinite (MAE_of (after_try (buildRootIT 1) [] []) [] [])
   \<and> score (fitIT (buildRootIT 1) [] []) = Some 0"
proof -
  have m1: "MAE_of (after_try (buildRootIT 1) [[Fin 1], [Fin 2]] [Fin 2, Fin 5]) [[Fin 1], [Fin 2]] [Fin 2, Fin 5] = Fin (3 / 10)"
    by (simp add: fit_eval buildRootIT_def)
  have m2: "MAE_of (after_try (buildRootIT 1) [] []) [] [] = NaN"
    by (simp add: fit_eval buildRootIT_def)
  have "isFinite (MAE_of (after_try (buildRootIT 1) [[Fin 1], [Fin 2]] [Fin 2, Fin 5]) [[Fin 1], [Fin 2]] [Fin 2, Fin 5])"
    by (simp only: m1 isFinite.simps)
  with fitIT_score_of_MAE [of "buildRootIT 1" "[[Fin 1], [Fin 2]]" "[Fin 2, Fin 5]"]
  obtain a where a: "MAE_of (after_try (buildRootIT 1) [[Fin 1], [Fin 2]] [Fin 2, Fin 5]) [[Fin 1], [Fin 2]] [Fin 2, Fin 5] = Fin a"
    and sc: "score (fitIT (buildRootIT 1) [[Fin 1], [Fin 2]] [Fin 2, Fin 5]) = Some (1 / (1 + a))"
    by blast
  from a m1 have "a = 3 / 10" by simp
  with sc have s1: "score (fitIT (buildRootIT 1) [[Fin 1], [Fin 2]] [Fin 2, Fin 5]) = Some (10 / 13)"
    by simp
  from fitIT_score_of_MAE [of "buildRootIT 1" "[]" "[]"] m2
  have s2: "score (fitIT (buildRootIT 1) [] []) = Some 0"
    by simp
  from m1 m2 s1 s2 show ?thesis by simp
qed

lemma fit_failure_keeps_coeffs:
  assumes "fit_coeffs m Xs ys = Inl e"
  shows "coeffs (fitIT m Xs ys) = coeffs m"
  using assms by (simp add: fitIT_def after_try_def Let_def)

lemma fitIT_keeps_structure:
  "terms (fitIT m Xs ys) = terms m" "funcs (fitIT m Xs ys) = funcs m" "len (fitIT m Xs ys) = len m"
  by (simp_all add: fitIT_def after_try_def Let_def split: sum.splits)

text \<open>
  Claim C6. When the inverse of \<open>A\<^sup>T A\<close> raises, \<open>fitIT\<close> returns the model with the
  coefficients it was given; terms, functions and length are as given, and a score is
  assigned. \<open>fitIT\<close> has no failure among its results: the \<open>catch\<close> takes every exception
  of the \<open>try\<close> block.
\<close>

theorem fitIT_singular_keeps_coeffs:
  assumes "math_transpose (map (design_row m) Xs) = Inr XsHatT"
    and "math_multiply XsHatT (map (design_row m) Xs) = Inr p"
    and "math_inv p = Inl e"
  shows "coeffs (fitIT m Xs ys) = coeffs m \<and> terms (fitIT m Xs ys) = terms m
       \<and> funcs (fitIT m Xs ys) = funcs m \<and> len (fitIT m Xs ys) = len m
       \<and> (\<exists>s. score (fitIT m Xs ys) = Some s)"
proof -
  have "fit_coeffs m Xs ys = Inl e"
    using assms by (simp add: fit_coeffs_def and_then_def Let_def)
  then have "coeffs (fitIT m Xs ys) = coeffs m" by (rule fit_failure_keeps_coeffs)
  moreover have "\<exists>s. score (fitIT m Xs ys) = Some s" by (simp add: score_fitIT)
  ultimately show ?thesis by (simp add: fitIT_keeps_structure)
qed

theorem fitIT_singular_keeps_coeffs_witness:
  "math_transpose (map (design_row (buildRootIT 1)) [[Fin 0]]) = Inr [[Fin 0]]
   \<and> math_multiply [[Fin 0]] (map (design_row (buildRootIT 1)) [[Fin 0]]) = Inr [[Fin 0]]
   \<and> math_inv [[Fin 0]] = Inl MathError
   \<and> coeffs (fitIT (buildRootIT 1) [[Fin 0]] [Fin 1]) = [Fin 1]
   \<and> score (fitIT (buildRootIT 1) [[Fin 0]] [Fin 1]) = Some (1 / 2)"
proof -
  have h1: "math_transpose (map (design_row (buildRootIT 1)) [[Fin 0]]) = Inr [[Fin 0]]"
    by (simp add: fit_eval buildRootIT_def)
  have h2: "math_multiply [[Fin 0]] (map (design_row (buildRootIT 1)) [[Fin 0]]) = Inr [[Fin 0]]"
    by (simp add: fit_eval buildRootIT_def)
  have h3: "math_inv [[Fin 0]] = Inl MathError"
    by (simp add: fit_eval)
  from fitIT_singular_keeps_coeffs [OF h1 h2 h3, of "[Fin 1]"]
  have c: "coeffs (fitIT (buildRootIT 1) [[Fin 0]] [Fin 1]) = [Fin 1]"
    by (simp add: buildRootIT_def)
  have s: "score (fitIT (buildRootIT 1) [[Fin 0]] [Fin 1]) = Some (1 / 2)"
    by (simp add: fit_eval buildRootIT_def)
  from h1 h2 h3 c s show ?thesis by simp
qed

text \<open>The shapes of the library results, for the length of the fitted coefficients.\<close>

lemma math_multiply_length: "math_multiply A B = Inr C \<Longrightarrow> length C = length A"
  by (auto simp: math_multiply_def split: if_splits)

lemma math_inv_length: "math_inv M = Inr N \<Longrightarrow> length N = length M"
  by (auto simp: math_inv_def split: if_splits)

lemma fit_coeffs_length:
  assumes "fit_coeffs m Xs ys = Inr ws"
  shows "length ws = min (length (funcs m)) (length (terms m))"
proof -
  let ?A = "map (design_row m) Xs"
  from assms obtain At p q1 q2 C where
    t: "math_transpose ?A = Inr At" and p: "math_multiply At ?A = Inr p"
    and i: "math_inv p = Inr q1" and q: "math_multiply At (map (\<lambda>y. [y]) ys) = Inr q2"
    and w: "math_multiply q1 q2 = Inr C" and ws: "ws = map (\<lambda>w. w ! 0) C"
    by (auto simp: fit_coeffs_def and_then_def Let_def split: sum.splits)
  have "?A \<noteq> []" using t p by (auto simp: math_transpose_def math_multiply_def split: if_splits)
  then obtain X rest where Xs: "Xs = X # rest" by (cases Xs) auto
  have "length At = length (design_row m X)"
    using t Xs by (auto simp: math_transpose_def split: if_splits)
  moreover have "length ws = length At"
    using ws math_multiply_length[OF w] math_inv_length[OF i] math_multiply_length[OF p] by simp
  ultimately show ?thesis by (simp add: design_row_def)
qed

lemma fitIT_coeffs_length:
  "length (coeffs (fitIT m Xs ys)) = length (coeffs m)
   \<or> length (coeffs (fitIT m Xs ys)) = min (length (funcs m)) (length (terms m))"
  by (auto simp: fitIT_def after_try_def Let_def fit_coeffs_length split: sum.splits)

lemma fitIT_aligned: "aligned m \<Longrightarrow> aligned (fitIT m Xs ys)"
  using fitIT_coeffs_length[of m Xs ys] by (auto simp: aligned_def fitIT_keeps_structure)

section \<open>Pruning of small coefficients\<close>

text \<open>
  \<open>findCoeffs\<close>, the filter callback: it looks at the index only. \<open>IT.coeffs[index]\<close> is
  \<open>undefined\<close> past the end, its absolute value is NaN and the comparison is false.
\<close>

definition findCoeffs :: "IT \<Rightarrow> jsnum \<Rightarrow> nat \<Rightarrow> bool" where
  "findCoeffs m threshold index =
     (case nth_opt (coeffs m) index of None \<Rightarrow> False | Some c \<Rightarrow> jgt (jabs c) threshold)"

text \<open>\<open>xs.filter((_, index) => keep(index))\<close>\<close>

definition filter_index :: "(nat \<Rightarrow> bool) \<Rightarrow> 'a list \<Rightarrow> 'a list" where
  "filter_index keep xs = map fst (filter (\<lambda>(x, index). keep index) (zip xs [0..<length xs]))"

definition newIT :: "IT \<Rightarrow> jsnum \<Rightarrow> IT" where
  "newIT m threshold =
     \<lparr> terms = filter_index (findCoeffs m threshold) (terms m),
       funcs = filter_index (findCoeffs m threshold) (funcs m),
       coeffs = filter_index (findCoeffs m threshold) (coeffs m),
       len = length (filter_index (findCoeffs m threshold) (coeffs m)),
       score = None \<rparr>"

lemma filter_index_positions:
  "filter_index keep xs = map (\<lambda>i. xs ! i) (filter keep [0..<length xs])"
proof -
  have "zip xs [0..<length xs] = map (\<lambda>i. (xs ! i, i)) [0..<length xs]"
    by (rule nth_equalityI) auto
  then show ?thesis
    by (simp add: filter_index_def filter_map comp_def)
qed

lemma length_filter_index_le: "length (filter_index keep xs) \<le> length xs"
  by (simp add: filter_index_positions) (metis length_filter_le length_upt diff_zero)

lemma length_filter_index_findCoeffs:
  "length (filter_index (findCoeffs m t) xs) \<le> length (filter_index (findCoeffs m t) (coeffs m))"
proof -
  let ?P = "findCoeffs m t"
  let ?c = "length (coeffs m)"
  have out: "\<not> ?P i" if "?c \<le> i" for i using that by (simp add: findCoeffs_def nth_opt_def)
  show ?thesis
  proof (cases "length xs \<le> ?c")
    case True
    then have "[0..<?c] = [0..<length xs] @ [length xs..<?c]"
      using upt_add_eq_append[of 0 "length xs" "?c - length xs"] by simp
    then have "filter ?P [0..<?c] = filter ?P [0..<length xs] @ filter ?P [length xs..<?c]"
      by (metis filter_append)
    then show ?thesis by (simp add: filter_index_positions)
  next
    case False
    then have "[0..<length xs] = [0..<?c] @ [?c..<length xs]"
      using upt_add_eq_append[of 0 ?c "length xs - ?c"] by simp
    then have "filter ?P [0..<length xs] = filter ?P [0..<?c] @ filter ?P [?c..<length xs]"
      by (metis filter_append)
    moreover have "filter ?P [?c..<length xs] = []" using out by (simp add: filter_empty_conv)
    ultimately show ?thesis by (simp add: filter_index_positions)
  qed
qed

lemma simplify_measure:
  assumes "len (newIT m t) \<noteq> 0" and "len (newIT m t) \<noteq> len m"
  shows "2 * length (coeffs (fitIT (newIT m t) Xs ys))
           + (if len (fitIT (newIT m t) Xs ys) = length (coeffs (fitIT (newIT m t) Xs ys)) then 0 else 1)
         < 2 * length (coeffs m) + (if len m = length (coeffs m) then 0 else 1)"
proof -
  let ?n = "newIT m t"
  have c': "length (coeffs ?n) \<le> length (coeffs m)"
    by (simp add: newIT_def length_filter_index_le)
  have ln: "len ?n = length (coeffs ?n)" by (simp add: newIT_def)
  have "min (length (funcs ?n)) (length (terms ?n)) \<le> length (coeffs ?n)"
    using length_filter_index_findCoeffs[of m t "funcs m"] by (simp add: newIT_def)
  then have c'': "length (coeffs (fitIT ?n Xs ys)) \<le> length (coeffs ?n)"
    using fitIT_coeffs_length[of ?n Xs ys] by auto
  have lf: "len (fitIT ?n Xs ys) = length (coeffs ?n)"
    using ln by (simp add: fitIT_keeps_structure)
  show ?thesis
  proof (cases "length (coeffs ?n) < length (coeffs m)")
    case True
    then show ?thesis using c'' lf by (simp split: if_splits)
  next
    case False
    then have "length (coeffs ?n) = length (coeffs m)" using c' by simp
    then show ?thesis using c'' lf ln assms(2) by (simp split: if_splits)
  qed
qed

function simplifyIT :: "IT \<Rightarrow> jsnum list list \<Rightarrow> jsnum list \<Rightarrow> nat \<Rightarrow> jsnum \<Rightarrow> IT" where
  "simplifyIT m Xs ys nvars threshold =
     (if len (newIT m threshold) = 0 then m
      else if len (newIT m threshold) = len m then m
      else simplifyIT (fitIT (newIT m threshold) Xs ys) Xs ys nvars threshold)"
  by pat_completeness auto
termination
  by (relation "measure (\<lambda>(m, Xs, ys, nvars, threshold).
        2 * length (coeffs m) + (if len m = length (coeffs m) then 0 else 1))")
     (simp_all add: simplify_measure del: One_nat_def)

declare simplifyIT.simps [simp del]

lemma newIT_aligned_positions:
  assumes "aligned m"
  shows "terms (newIT m t) = map (\<lambda>i. terms m ! i) (filter (findCoeffs m t) [0..<len m])"
    and "funcs (newIT m t) = map (\<lambda>i. funcs m ! i) (filter (findCoeffs m t) [0..<len m])"
    and "coeffs (newIT m t) = map (\<lambda>i. coeffs m ! i) (filter (findCoeffs m t) [0..<len m])"
    and "len (newIT m t) = length (filter (findCoeffs m t) [0..<len m])"
  using assms by (simp_all add: newIT_def filter_index_positions aligned_def)

lemma newIT_aligned: "aligned m \<Longrightarrow> aligned (newIT m t)"
  by (simp add: aligned_def newIT_aligned_positions)

lemma findCoeffs_in_range:
  "i < length (coeffs m) \<Longrightarrow> findCoeffs m t i = jgt (jabs (coeffs m ! i)) t"
  by (simp add: findCoeffs_def nth_opt_def)

lemma newIT_none_kept:
  assumes "aligned m"
  shows "len (newIT m t) = 0 \<longleftrightarrow> (\<forall>c \<in> set (coeffs m). \<not> jgt (jabs c) t)"
proof -
  have "len (newIT m t) = 0 \<longleftrightarrow> (\<forall>i < len m. \<not> findCoeffs m t i)"
    by (auto simp: newIT_aligned_positions(4)[OF assms] filter_empty_conv)
  also have "\<dots> \<longleftrightarrow> (\<forall>i < length (coeffs m). \<not> jgt (jabs (coeffs m ! i)) t)"
    using assms by (auto simp: aligned_def findCoeffs_in_range)
  also have "\<dots> \<longleftrightarrow> (\<forall>c \<in> set (coeffs m). \<not> jgt (jabs c) t)"
    by (auto simp: all_set_conv_all_nth)
  finally show ?thesis .
qed

lemma newIT_all_kept:
  assumes "aligned m"
  shows "len (newIT m t) = len m \<longleftrightarrow> (\<forall>c \<in> set (coeffs m). jgt (jabs c) t)"
proof -
  have "length (filter (findCoeffs m t) [0..<len m]) = length [0..<len m]
        \<longleftrightarrow> (\<forall>i \<in> set [0..<len m]. findCoeffs m t i)"
    by (metis filter_id_conv length_filter_less less_irrefl filter_True)
  then have "len (newIT m t) = len m \<longleftrightarrow> (\<forall>i < len m. findCoeffs m t i)"
    by (auto simp: newIT_aligned_positions(4)[OF assms])
  also have "\<dots> \<longleftrightarrow> (\<forall>i < length (coeffs m). jgt (jabs (coeffs m ! i)) t)"
    using assms by (auto simp: aligned_def findCoeffs_in_range)
  also have "\<dots> \<longleftrightarrow> (\<forall>c \<in> set (coeffs m). jgt (jabs c) t)"
    by (auto simp: all_set_conv_all_nth)
  finally show ?thesis .
qed

lemma simplifyIT_nonempty: "len m \<noteq> 0 \<Longrightarrow> len (simplifyIT m Xs ys nvars t) \<noteq> 0"
proof (induction m Xs ys nvars t rule: simplifyIT.induct)
  case (1 m Xs ys nvars t)
  show ?case
  proof (cases "len (newIT m t) = 0 \<or> len (newIT m t) = len m")
    case True
    then show ?thesis using "1.prems" by (auto simp: simplifyIT.simps[of m])
  next
    case False
    then have "len (fitIT (newIT m t) Xs ys) \<noteq> 0" by (simp add: fitIT_keeps_structure)
    then show ?thesis using False "1.IH" by (simp add: simplifyIT.simps[of m])
  qed
qed

lemma simplifyIT_aligned: "aligned m \<Longrightarrow> aligned (simplifyIT m Xs ys nvars t)"
proof (induction m Xs ys nvars t rule: simplifyIT.induct)
  case (1 m Xs ys nvars t)
  show ?case
  proof (cases "len (newIT m t) = 0 \<or> len (newIT m t) = len m")
    case True
    then show ?thesis using "1.prems" by (auto simp: simplifyIT.simps[of m])
  next
    case False
    have "aligned (fitIT (newIT m t) Xs ys)"
      using "1.prems" by (intro fitIT_aligned newIT_aligned)
    then show ?thesis using False "1.IH" by (simp add: simplifyIT.simps[of m])
  qed
qed

lemma simplifyIT_stable:
  "len (newIT (simplifyIT m Xs ys nvars t) t) = 0
   \<or> len (newIT (simplifyIT m Xs ys nvars t) t) = len (simplifyIT m Xs ys nvars t)"
proof (induction m Xs ys nvars t rule: simplifyIT.induct)
  case (1 m Xs ys nvars t)
  show ?case
  proof (cases "len (newIT m t) = 0 \<or> len (newIT m t) = len m")
    case True
    then show ?thesis by (auto simp: simplifyIT.simps[of m])
  next
    case False
    then show ?thesis using "1.IH" by (simp add: simplifyIT.simps[of m])
  qed
qed

text \<open>
  Claim C7. For an aligned model that is not empty, one pass of \<open>simplifyIT\<close> keeps the
  entries whose \<open>|coefficient|\<close> exceeds the threshold, in order; when the pass would keep
  nothing, or removes nothing, the model is returned as it is, and otherwise the pass is
  repeated on the kept entries after a new fit. The model returned is aligned, is not empty,
  and is a fixed point: either each of its coefficients exceeds the threshold in absolute
  value, or none does.
\<close>

theorem simplifyIT_prunes_to_fixed_point:
  assumes "aligned m" and "len m \<noteq> 0"
  shows "terms (newIT m t) = map (\<lambda>i. terms m ! i) (filter (\<lambda>i. jgt (jabs (coeffs m ! i)) t) [0..<len m])
     \<and> funcs (newIT m t) = map (\<lambda>i. funcs m ! i) (filter (\<lambda>i. jgt (jabs (coeffs m ! i)) t) [0..<len m])
     \<and> coeffs (newIT m t) = map (\<lambda>i. coeffs m ! i) (filter (\<lambda>i. jgt (jabs (coeffs m ! i)) t) [0..<len m])
     \<and> simplifyIT m Xs ys nvars t =
         (if (\<forall>c \<in> set (coeffs m). \<not> jgt (jabs c) t) then m
          else if (\<forall>c \<in> set (coeffs m). jgt (jabs c) t) then m
          else simplifyIT (fitIT (newIT m t) Xs ys) Xs ys nvars t)
     \<and> aligned (simplifyIT m Xs ys nvars t)
     \<and> len (simplifyIT m Xs ys nvars t) \<noteq> 0
     \<and> ((\<forall>c \<in> set (coeffs (simplifyIT m Xs ys nvars t)). jgt (jabs c) t)
        \<or> (\<forall>c \<in> set (coeffs (simplifyIT m Xs ys nvars t)). \<not> jgt (jabs c) t))"
proof -
  let ?R = "simplifyIT m Xs ys nvars t"
  have f: "filter (findCoeffs m t) [0..<len m] = filter (\<lambda>i. jgt (jabs (coeffs m ! i)) t) [0..<len m]"
    using assms(1) by (intro filter_cong) (auto simp: aligned_def findCoeffs_in_range)
  note p = newIT_aligned_positions(1,2,3)[OF assms(1), of t, unfolded f]
  have step: "?R = (if (\<forall>c \<in> set (coeffs m). \<not> jgt (jabs c) t) then m
          else if (\<forall>c \<in> set (coeffs m). jgt (jabs c) t) then m
          else simplifyIT (fitIT (newIT m t) Xs ys) Xs ys nvars t)"
    by (subst simplifyIT.simps)
       (simp only: newIT_none_kept[OF assms(1)] newIT_all_kept[OF assms(1)])
  have al: "aligned ?R" using assms(1) by (rule simplifyIT_aligned)
  have ne: "len ?R \<noteq> 0" using assms(2) by (rule simplifyIT_nonempty)
  have fp: "(\<forall>c \<in> set (coeffs ?R). jgt (jabs c) t) \<or> (\<forall>c \<in> set (coeffs ?R). \<not> jgt (jabs c) t)"
    using simplifyIT_stable[of m Xs ys nvars t] newIT_none_kept[OF al, of t] newIT_all_kept[OF al, of t]
    by blast
  show ?thesis by (intro conjI p step al ne fp)
qed

lemmas prune_eval = newIT_def filter_index_def findCoeffs_def nth_opt_def

theorem simplifyIT_prunes_to_fixed_point_witness:
  "aligned \<lparr> terms = [[1], [2]], funcs = [Id, Id], coeffs = [Fin 1, Fin (1 / 1000)], len = 2, score = None \<rparr>
   \<and> len \<lparr> terms = [[1], [2]], funcs = [Id, Id], coeffs = [Fin 1, Fin (1 / 1000)], len = 2, score = None \<rparr> \<noteq> 0
   \<and> simplifyIT \<lparr> terms = [[1], [2]], funcs = [Id, Id], coeffs = [Fin 1, Fin (1 / 1000)], len = 2, score = None \<rparr>
         [[Fin 1], [Fin 2]] [Fin 2, Fin 4] 1 (Fin (5 / 1000))
       = \<lparr> terms = [[1]], funcs = [Id], coeffs = [Fin 2], len = 1, score = Some 1 \<rparr>"
proof -
  let ?m = "\<lparr> terms = [[1], [2]], funcs = [Id, Id], coeffs = [Fin 1, Fin (1 / 1000)], len = 2, score = None \<rparr>"
  let ?r = "\<lparr> terms = [[1]], funcs = [Id], coeffs = [Fin 2], len = 1, score = Some 1 \<rparr>"
  have h1: "aligned ?m" by (simp add: aligned_def)
  have h2: "len ?m \<noteq> 0" by simp
  note c = simplifyIT_prunes_to_fixed_point [OF h1 h2, of "Fin (5 / 1000)" "[[Fin 1], [Fin 2]]" "[Fin 2, Fin 4]" 1]
  have n: "newIT ?m (Fin (5 / 1000)) = \<lparr> terms = [[1]], funcs = [Id], coeffs = [Fin 1], len = 1, score = None \<rparr>"
    by (simp add: prune_eval upt_rec numeral_2_eq_2)
  have f: "fitIT \<lparr> terms = [[1]], funcs = [Id], coeffs = [Fin 1], len = 1, score = None \<rparr>
             [[Fin 1], [Fin 2]] [Fin 2, Fin 4] = ?r"
    by (simp add: fit_eval)
  note step = c [THEN conjunct2, THEN conjunct2, THEN conjunct2, THEN conjunct1]
  have "simplifyIT ?m [[Fin 1], [Fin 2]] [Fin 2, Fin 4] 1 (Fin (5 / 1000))
      = simplifyIT (fitIT (newIT ?m (Fin (5 / 1000))) [[Fin 1], [Fin 2]] [Fin 2, Fin 4])
          [[Fin 1], [Fin 2]] [Fin 2, Fin 4] 1 (Fin (5 / 1000))"
    by (subst step) simp
  also have "\<dots> = simplifyIT ?r [[Fin 1], [Fin 2]] [Fin 2, Fin 4] 1 (Fin (5 / 1000))"
    by (simp only: n f)
  also have "\<dots> = ?r"
    by (subst simplifyIT.simps) (simp add: prune_eval upt_rec)
  finally show ?thesis using h1 h2 by simp
qed

section \<open>Random draws\<close>

text \<open>
  \<open>Math.random()\<close> is played by a list of numbers, read from the front; each call returns
  a number of \<open>[0, 1)\<close> and the rest of the list.
\<close>

definition Math_random :: "real list \<Rightarrow> js_error + (real \<times> real list)" where
  "Math_random rs =
     (case rs of
        [] \<Rightarrow> Inl NoMoreDraws
      | r # rest \<Rightarrow> if 0 \<le> r \<and> r < 1 then Inr (r, rest) else Inl NoMoreDraws)"

text \<open>\<open>x << 0\<close> on a finite number: truncation towards zero, then reduction to 32 signed bits.\<close>

definition shl0 :: "real \<Rightarrow> int" where
  "shl0 x = (let t = (if 0 \<le> x then \<lfloor>x\<rfloor> else \<lceil>x\<rceil>) in (t + 2 ^ 31) mod 2 ^ 32 - 2 ^ 31)"

text \<open>\<open>Math.random() * 2 * (expolim+1) - 1 - expolim << 0\<close>\<close>

definition random_exponent :: "int \<Rightarrow> real \<Rightarrow> int" where
  "random_exponent expolim r = shl0 (r * 2 * (real_of_int expolim + 1) - 1 - real_of_int expolim)"

text \<open>\<open>n * Math.random() << 0\<close>, an index below \<open>n\<close>.\<close>

definition random_index :: "nat \<Rightarrow> real \<Rightarrow> int" where
  "random_index n r = shl0 (real n * r)"

text \<open>\<open>funs[funsKeys[funsKeys.length * Math.random() << 0]]\<close>\<close>

definition draw_func :: "real list \<Rightarrow> js_error + (func \<times> real list)" where
  "draw_func rs =
     and_then (Math_random rs) (\<lambda>(r, rest).
       let k = random_index (length funsKeys) r in
       if 0 \<le> k \<and> nat k < length funsKeys then Inr (funsKeys ! nat k, rest) else Inl OutsideModel)"

section \<open>Random models and mutation\<close>

text \<open>\<open>Array.from({length: nvars}, () => ...)\<close>: one draw for each exponent.\<close>

fun draw_exponents :: "nat \<Rightarrow> int \<Rightarrow> real list \<Rightarrow> js_error + (int list \<times> real list)" where
  "draw_exponents 0 expolim rs = Inr ([], rs)"
| "draw_exponents (Suc n) expolim rs =
     and_then (Math_random rs) (\<lambda>(r, rest).
     and_then (draw_exponents n expolim rest) (\<lambda>(term, rest').
       Inr (random_exponent expolim r # term, rest')))"

lemma draw_exponents_length:
  "draw_exponents n expolim rs = Inr (tm, rest) \<Longrightarrow> length tm = n \<and> length rest + n = length rs"
proof (induction n arbitrary: rs tm rest)
  case 0
  then show ?case by simp
next
  case (Suc n)
  then obtain r rs1 tm1 where r: "Math_random rs = Inr (r, rs1)"
    and d: "draw_exponents n expolim rs1 = Inr (tm1, rest)" and t: "tm = random_exponent expolim r # tm1"
    by (auto simp: and_then_def split: sum.splits)
  have "length rs = Suc (length rs1)"
    using r by (auto simp: Math_random_def split: list.splits if_splits)
  then show ?case using Suc.IH[OF d] t by simp
qed

text \<open>
  \<open>createTerm\<close> draws a vector and calls itself again when the vector is all-zero. With
  no variable the vector is empty, hence all-zero each time, and the calls end in the
  RangeError of the call stack.
\<close>

function createTerm :: "nat \<Rightarrow> int \<Rightarrow> real list \<Rightarrow> js_error + (int list \<times> real list)" where
  "createTerm nvars expolim rs =
     (if nvars = 0 then Inl RangeError
      else case draw_exponents nvars expolim rs of
        Inl e \<Rightarrow> Inl e
      | Inr (term, rest) \<Rightarrow> if all_zero term then createTerm nvars expolim rest else Inr (term, rest))"
  by pat_completeness auto
termination
  apply (relation "measure (\<lambda>(nvars, expolim, rs). length rs)")
   apply simp
  apply clarsimp
  apply (frule draw_exponents_length)
  apply simp
  done

declare createTerm.simps [simp del]

fun createTerms :: "nat \<Rightarrow> nat \<Rightarrow> int \<Rightarrow> real list \<Rightarrow> js_error + (int list list \<times> real list)" where
  "createTerms 0 nvars expolim rs = Inr ([], rs)"
| "createTerms (Suc k) nvars expolim rs =
     and_then (createTerm nvars expolim rs) (\<lambda>(term, rest).
     and_then (createTerms k nvars expolim rest) (\<lambda>(ts, rest').
       Inr (term # ts, rest')))"

fun draw_funcs :: "nat \<Rightarrow> real list \<Rightarrow> js_error + (func list \<times> real list)" where
  "draw_funcs 0 rs = Inr ([], rs)"
| "draw_funcs (Suc k) rs =
     and_then (draw_func rs) (\<lambda>(f, rest).
     and_then (draw_funcs k rest) (\<lambda>(fs, rest').
       Inr (f # fs, rest')))"

text \<open>
  \<open>buildRandIT\<close>: the terms are drawn first, then the functions. \<open>Array(nTerms)\<close> raises
  a RangeError unless \<open>nTerms\<close> is a length.
\<close>

definition buildRandIT :: "int \<Rightarrow> nat \<Rightarrow> int \<Rightarrow> real list \<Rightarrow> js_error + (IT \<times> real list)" where
  "buildRandIT nTerms nvars expolim rs =
     (if nTerms < 0 \<or> 2 ^ 32 - 1 < nTerms then Inl RangeError
      else
        and_then (createTerms (nat nTerms) nvars expolim rs) (\<lambda>(ts, rest).
        and_then (draw_funcs (nat nTerms) rest) (\<lambda>(fs, rest').
          Inr (\<lparr> terms = ts, funcs = fs, coeffs = replicate (nat nTerms) (Fin 1),
                 len = nat nTerms, score = None \<rparr>, rest'))))"

text \<open>
  \<open>xs[i] = v\<close>: inside the array the entry is replaced, at its end the array grows by one,
  and further out it would get holes.
\<close>

definition js_store :: "'a list \<Rightarrow> int \<Rightarrow> 'a \<Rightarrow> js_error + 'a list" where
  "js_store xs i v =
     (if 0 \<le> i \<and> nat i < length xs then Inr (xs[nat i := v])
      else if i = int (length xs) then Inr (xs @ [v])
      else Inl OutsideModel)"

definition mutateopIT :: "IT \<Rightarrow> real list \<Rightarrow> js_error + (IT \<times> real list)" where
  "mutateopIT m rs =
     and_then (Math_random rs) (\<lambda>(r, rest).
     and_then (draw_func rest) (\<lambda>(f, rest').
     and_then (js_store (funcs m) (random_index (len m) r) f) (\<lambda>fs.
       Inr (m\<lparr>funcs := fs\<rparr>, rest'))))"

text \<open>
  The assignment of \<open>mutatetermsIT\<close>: the term index, the variable index and the new
  exponent are drawn in this order; a term index with no term raises a TypeError.
\<close>

definition replace_exponent :: "IT \<Rightarrow> nat \<Rightarrow> int \<Rightarrow> real list \<Rightarrow> js_error + (IT \<times> real list)" where
  "replace_exponent m nvars expolim rs =
     and_then (Math_random rs) (\<lambda>(r1, rest1).
     and_then (Math_random rest1) (\<lambda>(r2, rest2).
     and_then (Math_random rest2) (\<lambda>(r3, rest3).
       let ti = random_index (len m) r1 in
       if \<not> (0 \<le> ti \<and> nat ti < length (terms m)) then Inl TypeError
       else
         and_then (js_store (terms m ! nat ti) (random_index nvars r2) (random_exponent expolim r3)) (\<lambda>term.
           Inr (m\<lparr>terms := (terms m)[nat ti := term]\<rparr>, rest3)))))"

definition mutatetermsIT :: "IT \<Rightarrow> nat \<Rightarrow> int \<Rightarrow> real list \<Rightarrow> js_error + (IT \<times> real list)" where
  "mutatetermsIT m nvars expolim rs =
     and_then (replace_exponent m nvars expolim rs) (\<lambda>(m', rest).
       if list_ex all_zero (terms m') then buildRandIT (int (len m')) nvars expolim rest
       else Inr (m', rest))"

lemma createTerm_result:
  "createTerm nvars expolim rs = Inr (tm, rest) \<Longrightarrow> \<not> all_zero tm \<and> length tm = nvars"
proof (induction nvars expolim rs rule: createTerm.induct)
  case (1 nvars expolim rs)
  from "1.prems" have nz: "nvars \<noteq> 0"
    by (subst (asm) createTerm.simps) (simp split: if_splits)
  from "1.prems" nz obtain t1 r1 where d: "draw_exponents nvars expolim rs = Inr (t1, r1)"
    by (subst (asm) createTerm.simps) (auto split: sum.splits)
  show ?case
  proof (cases "all_zero t1")
    case True
    then have "createTerm nvars expolim r1 = Inr (tm, rest)"
      using "1.prems" nz d by (subst (asm) createTerm.simps) simp
    then show ?thesis using "1.IH"[OF nz d refl True] by simp
  next
    case False
    then have "tm = t1" using "1.prems" nz d by (subst (asm) createTerm.simps) simp
    then show ?thesis using False draw_exponents_length[OF d] by simp
  qed
qed

lemma createTerms_result:
  "createTerms k nvars expolim rs = Inr (ts, rest) \<Longrightarrow>
     length ts = k \<and> (\<forall>t \<in> set ts. \<not> all_zero t \<and> length t = nvars)"
proof (induction k arbitrary: rs ts rest)
  case 0
  then show ?case by simp
next
  case (Suc k)
  then obtain t r1 ts1 where c: "createTerm nvars expolim rs = Inr (t, r1)"
    and cs: "createTerms k nvars expolim r1 = Inr (ts1, rest)" and ts: "ts = t # ts1"
    by (auto simp: and_then_def split: sum.splits)
  show ?case using createTerm_result[OF c] Suc.IH[OF cs] ts by simp
qed

lemma draw_funcs_length: "draw_funcs k rs = Inr (fs, rest) \<Longrightarrow> length fs = k"
proof (induction k arbitrary: rs fs rest)
  case 0
  then show ?case by simp
next
  case (Suc k)
  then obtain f r1 fs1 where "draw_funcs k r1 = Inr (fs1, rest)" and "fs = f # fs1"
    by (auto simp: and_then_def split: sum.splits)
  then show ?case using Suc.IH by simp
qed

lemma buildRandIT_result:
  assumes "buildRandIT nTerms nvars expolim rs = Inr (m, rest)"
  shows "len m = nat nTerms \<and> wf_IT nvars m \<and> \<not> list_ex all_zero (terms m)
       \<and> coeffs m = replicate (nat nTerms) (Fin 1) \<and> score m = None"
proof -
  from assms obtain ts r1 fs where ct: "createTerms (nat nTerms) nvars expolim rs = Inr (ts, r1)"
    and rf: "draw_funcs (nat nTerms) r1 = Inr (fs, rest)"
    and m: "m = \<lparr> terms = ts, funcs = fs, coeffs = replicate (nat nTerms) (Fin 1),
                  len = nat nTerms, score = None \<rparr>"
    by (auto simp: buildRandIT_def and_then_def split: if_splits sum.splits)
  show ?thesis
    using createTerms_result[OF ct] draw_funcs_length[OF rf]
    by (simp add: m wf_IT_def aligned_def list_ex_iff)
qed

text \<open>
  Claim C8. When the model after the single exponent replacement holds an all-zero exponent
  vector, \<open>mutatetermsIT\<close> returns what \<open>buildRandIT\<close> builds for the same term count
  from the draws that follow; a model built by \<open>buildRandIT\<close> has that term count,
  aligned arrays and no all-zero vector. Hence a model returned by \<open>mutatetermsIT\<close> holds
  no all-zero exponent vector.
\<close>

theorem mutatetermsIT_no_all_zero:
  "(replace_exponent m nvars expolim rs = Inr (m1, rs1) \<and> list_ex all_zero (terms m1) \<longrightarrow>
      mutatetermsIT m nvars expolim rs = buildRandIT (int (len m)) nvars expolim rs1)
   \<and> (buildRandIT (int (len m)) nvars expolim rs1 = Inr (m2, rs2) \<longrightarrow>
      len m2 = len m \<and> wf_IT nvars m2 \<and> \<not> list_ex all_zero (terms m2))
   \<and> (mutatetermsIT m nvars expolim rs = Inr (m', rs') \<longrightarrow> \<not> list_ex all_zero (terms m'))"
proof (intro conjI impI)
  assume a: "replace_exponent m nvars expolim rs = Inr (m1, rs1) \<and> list_ex all_zero (terms m1)"
  then have "len m1 = len m"
    by (auto simp: replace_exponent_def and_then_def Let_def split: sum.splits if_splits)
  then show "mutatetermsIT m nvars expolim rs = buildRandIT (int (len m)) nvars expolim rs1"
    using a by (simp add: mutatetermsIT_def and_then_def)
next
  assume "buildRandIT (int (len m)) nvars expolim rs1 = Inr (m2, rs2)"
  from buildRandIT_result[OF this]
  show "len m2 = len m" "wf_IT nvars m2" "\<not> list_ex all_zero (terms m2)" by simp_all
next
  assume r: "mutatetermsIT m nvars expolim rs = Inr (m', rs')"
  then obtain m1 r1 where re: "replace_exponent m nvars expolim rs = Inr (m1, r1)"
    by (auto simp: mutatetermsIT_def and_then_def split: sum.splits)
  show "\<not> list_ex all_zero (terms m')"
  proof (cases "list_ex all_zero (terms m1)")
    case True
    then have "buildRandIT (int (len m1)) nvars expolim r1 = Inr (m', rs')"
      using r re by (simp add: mutatetermsIT_def and_then_def)
    then show ?thesis using buildRandIT_result by blast
  next
    case False
    then have "m' = m1" using r re by (simp add: mutatetermsIT_def and_then_def)
    then show ?thesis using False by simp
  qed
qed

lemmas draw_eval = Math_random_def shl0_def random_exponent_def random_index_def draw_func_def
  funsKeys_def js_store_def and_then_def all_zero_def Let_def

theorem mutatetermsIT_no_all_zero_witness:
  "replace_exponent \<lparr> terms = [[1]], funcs = [Id], coeffs = [Fin 1], len = 1, score = None \<rparr> 1 1
       [0, 0, 1 / 2, 1 / 2, 7 / 8, 1 / 2]
     = Inr (\<lparr> terms = [[0]], funcs = [Id], coeffs = [Fin 1], len = 1, score = None \<rparr>, [1 / 2, 7 / 8, 1 / 2])
   \<and> list_ex all_zero [[0]]
   \<and> mutatetermsIT \<lparr> terms = [[1]], funcs = [Id], coeffs = [Fin 1], len = 1, score = None \<rparr> 1 1
       [0, 0, 1 / 2, 1 / 2, 7 / 8, 1 / 2]
     = Inr (\<lparr> terms = [[1]], funcs = [Id], coeffs = [Fin 1], len = 1, score = None \<rparr>, [])
   \<and> \<not> list_ex all_zero (terms \<lparr> terms = [[1]], funcs = [Id], coeffs = [Fin 1], len = 1, score = None \<rparr>)"
proof -
  let ?m = "\<lparr> terms = [[1]], funcs = [Id], coeffs = [Fin 1], len = 1, score = None \<rparr>"
  let ?m1 = "\<lparr> terms = [[0]], funcs = [Id], coeffs = [Fin 1], len = 1, score = None \<rparr>"
  let ?rs = "[0, 0, 1 / 2, 1 / 2, 7 / 8, 1 / 2] :: real list"
  have h1: "replace_exponent ?m 1 1 ?rs = Inr (?m1, [1 / 2, 7 / 8, 1 / 2])"
    by (simp add: replace_exponent_def draw_eval)
  have h2: "list_ex all_zero (terms ?m1)" by (simp add: all_zero_def)
  have b: "buildRandIT (int (len ?m)) 1 1 [1 / 2, 7 / 8, 1 / 2] = Inr (?m, [])"
    by (simp add: buildRandIT_def createTerm.simps draw_eval)
  note c = mutatetermsIT_no_all_zero [of ?m 1 1 ?rs ?m1 "[1 / 2, 7 / 8, 1 / 2]" ?m "[]" ?m "[]"]
  from c h1 h2 have "mutatetermsIT ?m 1 1 ?rs = buildRandIT (int (len ?m)) 1 1 [1 / 2, 7 / 8, 1 / 2]"
    by blast
  then have r: "mutatetermsIT ?m 1 1 ?rs = Inr (?m, [])" by (simp only: b)
  with c have z: "\<not> list_ex all_zero (terms ?m)" by blast
  from h1 h2 r z show ?thesis by simp
qed

section \<open>Tree-expansion search\<close>

text \<open>The candidates pushed for the pair \<open>(j, k)\<close>: the sum, and the difference once \<open>i >= minI\<close>.\<close>

definition interaction :: "IT \<Rightarrow> nat \<Rightarrow> nat \<Rightarrow> newTerm" where
  "interaction leaf j k =
     \<lparr> nt_term = map (\<lambda>(t1, t2). t1 + t2) (zip (terms leaf ! j) (terms leaf ! k)),
       nt_func = Id, nt_coeff = None \<rparr>"

definition subtraction :: "IT \<Rightarrow> nat \<Rightarrow> nat \<Rightarrow> newTerm" where
  "subtraction leaf j k =
     \<lparr> nt_term = map (\<lambda>(t1, t2). t1 - t2) (zip (terms leaf ! j) (terms leaf ! k)),
       nt_func = Id, nt_coeff = None \<rparr>"

definition swapped :: "IT \<Rightarrow> nat \<Rightarrow> func \<Rightarrow> newTerm" where
  "swapped leaf j f = \<lparr> nt_term = terms leaf ! j, nt_func = f, nt_coeff = None \<rparr>"

text \<open>What the body of the loop over \<open>j\<close> pushes, in order.\<close>

definition pushed_for :: "IT \<Rightarrow> int \<Rightarrow> int \<Rightarrow> int \<Rightarrow> nat \<Rightarrow> newTerm list" where
  "pushed_for leaf i minI minT j =
     concat (map (\<lambda>k. interaction leaf j k # (if minI \<le> i then [subtraction leaf j k] else []))
               [j..<len leaf])
     @ (if minT \<le> i
        then map (swapped leaf j) (filter (\<lambda>f. Some f \<noteq> nth_opt (funcs leaf) j) funsKeys)
        else [])"

text \<open>
  The list \<open>toExpand\<close> before the filter. A leaf whose \<open>length\<close> exceeds its number of
  terms makes \<open>zip\<close> raise a TypeError at the first index with no term.
\<close>

definition toExpand :: "IT \<Rightarrow> int \<Rightarrow> int \<Rightarrow> int \<Rightarrow> js_error + newTerm list" where
  "toExpand leaf i minI minT =
     (if length (terms leaf) < len leaf then Inl TypeError
      else Inr (concat (map (pushed_for leaf i minI minT) [0..<len leaf])))"

text \<open>\<open>fitIT(sanitizeIT(composeIT(copyIT(node), term)), Xs, ys)\<close>\<close>

definition attempt :: "jsnum list list \<Rightarrow> jsnum list \<Rightarrow> IT \<Rightarrow> newTerm \<Rightarrow> js_error + IT" where
  "attempt Xs ys node nt =
     and_then (sanitizeIT (composeIT (copyIT node) nt)) (\<lambda>s. Inr (fitIT s Xs ys))"

text \<open>The first filter: the candidates whose attempt on the leaf scores above the leaf.\<close>

fun improving :: "jsnum list list \<Rightarrow> jsnum list \<Rightarrow> IT \<Rightarrow> newTerm list \<Rightarrow> js_error + newTerm list" where
  "improving Xs ys leaf [] = Inr []"
| "improving Xs ys leaf (nt # rest) =
     and_then (attempt Xs ys leaf nt) (\<lambda>a.
     and_then (improving Xs ys leaf rest) (\<lambda>kept.
       Inr (if score_gt (score a) (score leaf) then nt # kept else kept)))"

text \<open>
  One pass of the greedy filter: a candidate whose attempt on the running best scores above
  it is absorbed and dropped from the list, the others stay. The result is the list that
  stays and the running best.
\<close>

fun greedy_pass :: "jsnum list list \<Rightarrow> jsnum list \<Rightarrow> IT \<Rightarrow> newTerm list \<Rightarrow> js_error + (newTerm list \<times> IT)" where
  "greedy_pass Xs ys greedyBest [] = Inr ([], greedyBest)"
| "greedy_pass Xs ys greedyBest (nt # rest) =
     and_then (attempt Xs ys greedyBest nt) (\<lambda>a.
       if score_gt (score a) (score greedyBest) then greedy_pass Xs ys (copyIT a) rest
       else and_then (greedy_pass Xs ys greedyBest rest) (\<lambda>(kept, best). Inr (nt # kept, best)))"

lemma greedy_pass_length:
  "greedy_pass Xs ys g cands = Inr (kept, best) \<Longrightarrow> length kept \<le> length cands"
proof (induction cands arbitrary: g kept best)
  case Nil
  then show ?case by simp
next
  case (Cons nt rest)
  then obtain a where a: "attempt Xs ys g nt = Inr a"
    by (auto simp: and_then_def split: sum.splits)
  show ?case
  proof (cases "score_gt (score a) (score g)")
    case True
    then have "greedy_pass Xs ys (copyIT a) rest = Inr (kept, best)"
      using Cons.prems a by (simp add: and_then_def)
    then show ?thesis using Cons.IH by fastforce
  next
    case False
    then obtain k1 where "greedy_pass Xs ys g rest = Inr (k1, best)" and "kept = nt # k1"
      using Cons.prems a by (auto simp: and_then_def split: sum.splits)
    then show ?thesis using Cons.IH by fastforce
  qed
qed

text \<open>
  The \<open>while\<close> loop: each pass starts from the leaf, and its running best, simplified, is
  one child. A pass that drops no candidate leaves the list as it was, and the loop goes on
  for ever.
\<close>

function children :: "jsnum list list \<Rightarrow> jsnum list \<Rightarrow> nat \<Rightarrow> jsnum \<Rightarrow> IT \<Rightarrow> newTerm list \<Rightarrow> js_error + IT list" where
  "children Xs ys nvars threshold leaf cands =
     (if length cands = 0 then Inr []
      else case greedy_pass Xs ys leaf cands of
        Inl e \<Rightarrow> Inl e
      | Inr (kept, greedyBest) \<Rightarrow>
          if length kept < length cands
          then and_then (children Xs ys nvars threshold leaf kept) (\<lambda>more.
                 Inr (simplifyIT greedyBest Xs ys nvars threshold # more))
          else Inl Diverges)"
  by pat_completeness auto
termination
  by (relation "measure (\<lambda>(Xs, ys, nvars, threshold, leaf, cands). length cands)") auto

declare children.simps [simp del]

text \<open>The callback of \<open>leaves.map\<close>: the children of one leaf, or the leaf itself.\<close>

definition expand :: "jsnum list list \<Rightarrow> jsnum list \<Rightarrow> nat \<Rightarrow> jsnum \<Rightarrow> int \<Rightarrow> int \<Rightarrow> int \<Rightarrow> IT \<Rightarrow> js_error + IT list" where
  "expand Xs ys nvars threshold minI minT i leaf =
     and_then (toExpand leaf i minI minT) (\<lambda>cands.
     and_then (improving Xs ys leaf cands) (\<lambda>kept.
     and_then (children Xs ys nvars threshold leaf kept) (\<lambda>cs.
       Inr (if 0 < length cs then cs else [leaf]))))"

fun expand_all :: "jsnum list list \<Rightarrow> jsnum list \<Rightarrow> nat \<Rightarrow> jsnum \<Rightarrow> int \<Rightarrow> int \<Rightarrow> int \<Rightarrow> IT list \<Rightarrow> js_error + IT list list" where
  "expand_all Xs ys nvars threshold minI minT i [] = Inr []"
| "expand_all Xs ys nvars threshold minI minT i (leaf # rest) =
     and_then (expand Xs ys nvars threshold minI minT i leaf) (\<lambda>cs.
     and_then (expand_all Xs ys nvars threshold minI minT i rest) (\<lambda>more. Inr (cs # more)))"

text \<open>\<open>best.score >= stopScore\<close>\<close>

definition reached :: "IT \<Rightarrow> jsnum \<Rightarrow> bool" where
  "reached best stopScore = (case score best of None \<Rightarrow> False | Some s \<Rightarrow> jge (Fin s) stopScore)"

text \<open>One iteration: the callback of \<open>range(0, iterations).some\<close>, with the leaves as its state.\<close>

definition SYMTREE_iteration ::
  "jsnum list list \<Rightarrow> jsnum list \<Rightarrow> nat \<Rightarrow> jsnum \<Rightarrow> int \<Rightarrow> int \<Rightarrow> jsnum \<Rightarrow> IT list \<Rightarrow> int \<Rightarrow> js_error + (IT list \<times> bool)" where
  "SYMTREE_iteration Xs ys nvars threshold minI minT stopScore leaves i =
     and_then (expand_all Xs ys nvars threshold minI minT i leaves) (\<lambda>nodes.
     and_then (reduce_bestScore (concat nodes)) (\<lambda>best.
       Inr (concat nodes, reached best stopScore)))"

definition SYMTREE ::
  "jsnum list list \<Rightarrow> jsnum list \<Rightarrow> int \<Rightarrow> jsnum \<Rightarrow> int \<Rightarrow> int \<Rightarrow> jsnum \<Rightarrow> js_error + IT" where
  "SYMTREE Xs ys iterations threshold minI minT stopScore =
     (case Xs of
        [] \<Rightarrow> Inl TypeError
      | X0 # _ \<Rightarrow>
          let nvars = length X0;
              best = fitIT (buildRootIT nvars) Xs ys
          in and_then (range 0 iterations 1) (\<lambda>is.
             and_then (js_some (SYMTREE_iteration Xs ys nvars threshold minI minT stopScore) [best] is) (\<lambda>(leaves, stopped).
             and_then (reduce_bestScore leaves) (\<lambda>b.
               Inr (simplifyIT b Xs ys nvars (Fin (5 / 1000)))))))"

lemma composeIT_aligned: "aligned m \<Longrightarrow> aligned (composeIT m nt)"
  by (simp add: aligned_def composeIT_def)

lemma sanitizeIT_aligned_returns:
  assumes "aligned m"
  shows "\<exists>s. sanitizeIT m = Inr s \<and> aligned s"
proof -
  let ?rs = "concat (map (pushed m) [0..<len m])"
  have rs: "toRemove m = Inr ?rs" using assms by (simp add: toRemove_aligned aligned_def)
  have "aligned (pruned m ?rs)"
    using pruned_by_positions[OF assms, of ?rs] by (simp add: aligned_def)
  then show ?thesis using assms by (simp add: sanitizeIT_cases[OF rs])
qed

lemma attempt_aligned:
  assumes "aligned node"
  shows "\<exists>s. sanitizeIT (composeIT (copyIT node) nt) = Inr s \<and> aligned s
            \<and> attempt Xs ys node nt = Inr (fitIT s Xs ys)"
proof -
  have "aligned (composeIT (copyIT node) nt)"
    using assms by (simp add: copyIT_same composeIT_aligned)
  from sanitizeIT_aligned_returns[OF this] obtain s
    where "sanitizeIT (composeIT (copyIT node) nt) = Inr s" "aligned s" by blast
  then show ?thesis by (simp add: attempt_def and_then_def)
qed

lemma improving_aligned:
  assumes "aligned leaf"
  shows "improving Xs ys leaf cands =
     Inr (filter (\<lambda>nt. \<exists>a. attempt Xs ys leaf nt = Inr a \<and> score_gt (score a) (score leaf)) cands)"
proof (induction cands)
  case Nil
  then show ?case by simp
next
  case (Cons nt rest)
  obtain a where "attempt Xs ys leaf nt = Inr a"
    using attempt_aligned[OF assms, of nt Xs ys] by blast
  then show ?case using Cons.IH by (simp add: and_then_def)
qed

lemma set_pushed_for:
  assumes "aligned leaf" and "j < len leaf"
  shows "set (pushed_for leaf i minI minT j) =
      {interaction leaf j k | k. j \<le> k \<and> k < len leaf}
    \<union> (if minI \<le> i then {subtraction leaf j k | k. j \<le> k \<and> k < len leaf} else {})
    \<union> (if minT \<le> i then {swapped leaf j f | f. f \<in> set funsKeys \<and> f \<noteq> funcs leaf ! j} else {})"
proof -
  have f: "nth_opt (funcs leaf) j = Some (funcs leaf ! j)"
    using assms by (simp add: nth_opt_def aligned_def)
  have 1: "set (concat (map (\<lambda>k. interaction leaf j k # (if minI \<le> i then [subtraction leaf j k] else []))
               [j..<len leaf]))
      = {interaction leaf j k | k. j \<le> k \<and> k < len leaf}
        \<union> (if minI \<le> i then {subtraction leaf j k | k. j \<le> k \<and> k < len leaf} else {})"
    by auto
  have 2: "set (map (swapped leaf j) (filter (\<lambda>f. Some f \<noteq> nth_opt (funcs leaf) j) funsKeys))
      = {swapped leaf j f | f. f \<in> set funsKeys \<and> f \<noteq> funcs leaf ! j}"
    unfolding f by auto
  show ?thesis
    unfolding pushed_for_def set_append 1
    by (cases "minT \<le> i") (simp_all only: 2 if_True if_False set_simps Un_empty_right)
qed

text \<open>
  The candidates as the loop pushes them, and the first filter as a filter of the list.
\<close>

lemma toExpand_pushed_and_kept:
  assumes "aligned leaf"
  shows "\<exists>cands. toExpand leaf i minI minT = Inr cands
     \<and> set cands =
          {interaction leaf j k | j k. j \<le> k \<and> k < len leaf}
        \<union> (if minI \<le> i then {subtraction leaf j k | j k. j \<le> k \<and> k < len leaf} else {})
        \<union> (if minT \<le> i
           then {swapped leaf j f | j f. j < len leaf \<and> f \<in> set funsKeys \<and> f \<noteq> funcs leaf ! j}
           else {})
     \<and> improving Xs ys leaf cands =
          Inr (filter (\<lambda>nt. \<exists>s. sanitizeIT (composeIT (copyIT leaf) nt) = Inr s
                            \<and> score_gt (score (fitIT s Xs ys)) (score leaf)) cands)"
proof -
  let ?cands = "concat (map (pushed_for leaf i minI minT) [0..<len leaf])"
  have c: "toExpand leaf i minI minT = Inr ?cands"
    using assms by (simp add: toExpand_def aligned_def)
  have "set ?cands = (\<Union>j \<in> {0..<len leaf}. set (pushed_for leaf i minI minT j))"
    by simp
  also have "\<dots> = (\<Union>j \<in> {0..<len leaf}.
        {interaction leaf j k | k. j \<le> k \<and> k < len leaf}
      \<union> (if minI \<le> i then {subtraction leaf j k | k. j \<le> k \<and> k < len leaf} else {})
      \<union> (if minT \<le> i then {swapped leaf j f | f. f \<in> set funsKeys \<and> f \<noteq> funcs leaf ! j} else {}))"
    by (rule SUP_cong) (simp_all add: set_pushed_for[OF assms])
  also have "\<dots> = {interaction leaf j k | j k. j \<le> k \<and> k < len leaf}
        \<union> (if minI \<le> i then {subtraction leaf j k | j k. j \<le> k \<and> k < len leaf} else {})
        \<union> (if minT \<le> i
           then {swapped leaf j f | j f. j < len leaf \<and> f \<in> set funsKeys \<and> f \<noteq> funcs leaf ! j}
           else {})"
  proof -
    have A: "(\<Union>j \<in> {0..<n}. {F j k | k. j \<le> k \<and> k < n}) = {F j k | j k. j \<le> k \<and> k < n}"
      for F :: "nat \<Rightarrow> nat \<Rightarrow> newTerm" and n
    proof (intro set_eqI iffI)
      fix x assume "x \<in> (\<Union>j \<in> {0..<n}. {F j k | k. j \<le> k \<and> k < n})"
      then show "x \<in> {F j k | j k. j \<le> k \<and> k < n}" by blast
    next
      fix x assume "x \<in> {F j k | j k. j \<le> k \<and> k < n}"
      then obtain j k where x: "x = F j k" and jk: "j \<le> k" "k < n" by blast
      then have "j \<in> {0..<n}" by simp
      then show "x \<in> (\<Union>j \<in> {0..<n}. {F j k | k. j \<le> k \<and> k < n})" using x jk by blast
    qed
    have C: "(\<Union>j \<in> {0..<n}. {G j f | f. P j f}) = {G j f | j f. j < n \<and> P j f}"
      for G :: "nat \<Rightarrow> func \<Rightarrow> newTerm" and P n
      by (auto, blast)
    have D: "(\<Union>j \<in> S. if c then T j else {}) = (if c then (\<Union>j \<in> S. T j) else {})"
      for S :: "nat set" and T :: "nat \<Rightarrow> newTerm set" and c
      by simp
    show ?thesis
      by (simp only: UN_Un_distrib D A C)
  qed
  finally have s: "set ?cands = {interaction leaf j k | j k. j \<le> k \<and> k < len leaf}
        \<union> (if minI \<le> i then {subtraction leaf j k | j k. j \<le> k \<and> k < len leaf} else {})
        \<union> (if minT \<le> i
           then {swapped leaf j f | j f. j < len leaf \<and> f \<in> set funsKeys \<and> f \<noteq> funcs leaf ! j}
           else {})" .
  have same: "(\<exists>a. attempt Xs ys leaf nt = Inr a \<and> score_gt (score a) (score leaf))
      \<longleftrightarrow> (\<exists>s. sanitizeIT (composeIT (copyIT leaf) nt) = Inr s
                \<and> score_gt (score (fitIT s Xs ys)) (score leaf))" for nt
    using attempt_aligned[OF assms, of nt Xs ys] by auto
  have k: "improving Xs ys leaf ?cands =
          Inr (filter (\<lambda>nt. \<exists>s. sanitizeIT (composeIT (copyIT leaf) nt) = Inr s
                            \<and> score_gt (score (fitIT s Xs ys)) (score leaf)) ?cands)"
    by (simp only: improving_aligned[OF assms] same)
  show ?thesis by (rule exI[of _ ?cands]) (intro conjI c s k)
qed


lemma funsKeys_all: "set funsKeys = {Sin, Cos, Tan, Abs, Id, Sqrt, Exp, Log}"
  by (simp add: funsKeys_def)

lemma score_gt_explicit:
  "score_gt x y \<longleftrightarrow> (\<exists>a b. x = Some a \<and> y = Some b \<and> b < a)"
  by (cases x; cases y) (simp_all add: score_gt_def)


text \<open>
  Claim C9. For an aligned leaf at iteration \<open>i\<close>, the candidates are: for every pair of
  indices \<open>j \<le> k\<close>, the elementwise sum of the exponent vectors \<open>j\<close> and \<open>k\<close> with the
  identity function; once \<open>i \<ge> minI\<close>, the elementwise difference of the same vectors with
  the identity function; once \<open>i \<ge> minT\<close>, for every term and every one of the eight
  functions but the term's own, the term's exponent vector unchanged with that function.
  The first filter keeps exactly the candidates whose composition onto a copy of the leaf,
  sanitized and fitted, has a score strictly greater than the score of the leaf.
\<close>

theorem toExpand_candidates_and_filter:
  assumes "aligned leaf"
  shows "\<exists>cands. toExpand leaf i minI minT = Inr cands
     \<and> set cands =
          {\<lparr> nt_term = map2 (+) (terms leaf ! j) (terms leaf ! k), nt_func = Id, nt_coeff = None \<rparr>
             | j k. j \<le> k \<and> k < len leaf}
        \<union> (if minI \<le> i
           then {\<lparr> nt_term = map2 (-) (terms leaf ! j) (terms leaf ! k), nt_func = Id, nt_coeff = None \<rparr>
                   | j k. j \<le> k \<and> k < len leaf}
           else {})
        \<union> (if minT \<le> i
           then {\<lparr> nt_term = terms leaf ! j, nt_func = f, nt_coeff = None \<rparr>
                   | j f. j < len leaf \<and> f \<in> {Sin, Cos, Tan, Abs, Id, Sqrt, Exp, Log} \<and> f \<noteq> funcs leaf ! j}
           else {})
     \<and> improving Xs ys leaf cands =
          Inr (filter (\<lambda>nt. \<exists>s a b. sanitizeIT (composeIT (copyIT leaf) nt) = Inr s
                            \<and> score (fitIT s Xs ys) = Some a \<and> score leaf = Some b \<and> b < a) cands)"
proof -
  obtain cands where c: "toExpand leaf i minI minT = Inr cands"
    and s: "set cands =
          {interaction leaf j k | j k. j \<le> k \<and> k < len leaf}
        \<union> (if minI \<le> i then {subtraction leaf j k | j k. j \<le> k \<and> k < len leaf} else {})
        \<union> (if minT \<le> i
           then {swapped leaf j f | j f. j < len leaf \<and> f \<in> set funsKeys \<and> f \<noteq> funcs leaf ! j}
           else {})"
    and k: "improving Xs ys leaf cands =
          Inr (filter (\<lambda>nt. \<exists>s. sanitizeIT (composeIT (copyIT leaf) nt) = Inr s
                            \<and> score_gt (score (fitIT s Xs ys)) (score leaf)) cands)"
    using toExpand_pushed_and_kept[OF assms, of i minI minT Xs ys] by (elim exE conjE)
  have s': "set cands =
          {\<lparr> nt_term = map2 (+) (terms leaf ! j) (terms leaf ! k), nt_func = Id, nt_coeff = None \<rparr>
             | j k. j \<le> k \<and> k < len leaf}
        \<union> (if minI \<le> i
           then {\<lparr> nt_term = map2 (-) (terms leaf ! j) (terms leaf ! k), nt_func = Id, nt_coeff = None \<rparr>
                   | j k. j \<le> k \<and> k < len leaf}
           else {})
        \<union> (if minT \<le> i
           then {\<lparr> nt_term = terms leaf ! j, nt_func = f, nt_coeff = None \<rparr>
                   | j f. j < len leaf \<and> f \<in> {Sin, Cos, Tan, Abs, Id, Sqrt, Exp, Log} \<and> f \<noteq> funcs leaf ! j}
           else {})"
    using s by (simp only: interaction_def subtraction_def swapped_def funsKeys_all)
  have p: "(\<lambda>nt. \<exists>s. sanitizeIT (composeIT (copyIT leaf) nt) = Inr s
                            \<and> score_gt (score (fitIT s Xs ys)) (score leaf))
      = (\<lambda>nt. \<exists>s a b. sanitizeIT (composeIT (copyIT leaf) nt) = Inr s
                            \<and> score (fitIT s Xs ys) = Some a \<and> score leaf = Some b \<and> b < a)"
    by (simp add: score_gt_explicit)
  have k': "improving Xs ys leaf cands =
          Inr (filter (\<lambda>nt. \<exists>s a b. sanitizeIT (composeIT (copyIT leaf) nt) = Inr s
                            \<and> score (fitIT s Xs ys) = Some a \<and> score leaf = Some b \<and> b < a) cands)"
    using k by (simp only: p)
  show ?thesis by (rule exI[of _ cands]) (intro conjI c s' k')
qed

lemmas san_eval = sanitizeIT_def toRemove_def pushed_def later_duplicates_def all_zero_def same_term_def
  nth_opt_def pruned_def splice_all_def splice1_def copyIT_def composeIT_def

text \<open>
  A leaf \<open>cos(x\<^sup>2) + x\<close> at iteration \<open>0\<close> with \<open>minI = minT = 0\<close>: three sums, three
  differences, one of them of two different terms, and seven function swaps for each term.
  On the samples \<open>x = 0\<close>, \<open>y = 2\<close> the leaf predicts \<open>1\<close> and scores \<open>1/2\<close>; no fit
  succeeds, so each composition keeps the coefficient \<open>1\<close> of its new term, and the three
  candidates with value \<open>1\<close> at \<open>x = 0\<close> are the ones that are kept.
\<close>

theorem toExpand_candidates_and_filter_witness:
  "aligned \<lparr> terms = [[2], [1]], funcs = [Cos, Id], coeffs = [Fin 1, Fin 1], len = 2, score = Some (1 / 2) \<rparr>
   \<and> toExpand \<lparr> terms = [[2], [1]], funcs = [Cos, Id], coeffs = [Fin 1, Fin 1], len = 2, score = Some (1 / 2) \<rparr> 0 0 0
       = Inr [\<lparr> nt_term = [4], nt_func = Id, nt_coeff = None \<rparr>,
            \<lparr> nt_term = [0], nt_func = Id, nt_coeff = None \<rparr>,
            \<lparr> nt_term = [3], nt_func = Id, nt_coeff = None \<rparr>,
            \<lparr> nt_term = [1], nt_func = Id, nt_coeff = None \<rparr>,
            \<lparr> nt_term = [2], nt_func = Sin, nt_coeff = None \<rparr>,
            \<lparr> nt_term = [2], nt_func = Tan, nt_coeff = None \<rparr>,
            \<lparr> nt_term = [2], nt_func = Abs, nt_coeff = None \<rparr>,
            \<lparr> nt_term = [2], nt_func = Id, nt_coeff = None \<rparr>,
            \<lparr> nt_term = [2], nt_func = Sqrt, nt_coeff = None \<rparr>,
            \<lparr> nt_term = [2], nt_func = Exp, nt_coeff = None \<rparr>,
            \<lparr> nt_term = [2], nt_func = Log, nt_coeff = None \<rparr>,
            \<lparr> nt_term = [2], nt_func = Id, nt_coeff = None \<rparr>,
            \<lparr> nt_term = [0], nt_func = Id, nt_coeff = None \<rparr>,
            \<lparr> nt_term = [1], nt_func = Sin, nt_coeff = None \<rparr>,
            \<lparr> nt_term = [1], nt_func = Cos, nt_coeff = None \<rparr>,
            \<lparr> nt_term = [1], nt_func = Tan, nt_coeff = None \<rparr>,
            \<lparr> nt_term = [1], nt_func = Abs, nt_coeff = None \<rparr>,
            \<lparr> nt_term = [1], nt_func = Sqrt, nt_coeff = None \<rparr>,
            \<lparr> nt_term = [1], nt_func = Exp, nt_coeff = None \<rparr>,
            \<lparr> nt_term = [1], nt_func = Log, nt_coeff = None \<rparr>]
   \<and> improving [[Fin 0], [Fin 0]] [Fin 2, Fin 2]
         \<lparr> terms = [[2], [1]], funcs = [Cos, Id], coeffs = [Fin 1, Fin 1], len = 2, score = Some (1 / 2) \<rparr>
         [\<lparr> nt_term = [4], nt_func = Id, nt_coeff = None \<rparr>,
          \<lparr> nt_term = [0], nt_func = Id, nt_coeff = None \<rparr>,
          \<lparr> nt_term = [3], nt_func = Id, nt_coeff = None \<rparr>,
          \<lparr> nt_term = [1], nt_func = Id, nt_coeff = None \<rparr>,
          \<lparr> nt_term = [2], nt_func = Sin, nt_coeff = None \<rparr>,
          \<lparr> nt_term = [2], nt_func = Tan, nt_coeff = None \<rparr>,
          \<lparr> nt_term = [2], nt_func = Abs, nt_coeff = None \<rparr>,
          \<lparr> nt_term = [2], nt_func = Id, nt_coeff = None \<rparr>,
          \<lparr> nt_term = [2], nt_func = Sqrt, nt_coeff = None \<rparr>,
          \<lparr> nt_term = [2], nt_func = Exp, nt_coeff = None \<rparr>,
          \<lparr> nt_term = [2], nt_func = Log, nt_coeff = None \<rparr>,
          \<lparr> nt_term = [2], nt_func = Id, nt_coeff = None \<rparr>,
          \<lparr> nt_term = [0], nt_func = Id, nt_coeff = None \<rparr>,
          \<lparr> nt_term = [1], nt_func = Sin, nt_coeff = None \<rparr>,
          \<lparr> nt_term = [1], nt_func = Cos, nt_coeff = None \<rparr>,
          \<lparr> nt_term = [1], nt_func = Tan, nt_coeff = None \<rparr>,
          \<lparr> nt_term = [1], nt_func = Abs, nt_coeff = None \<rparr>,
          \<lparr> nt_term = [1], nt_func = Sqrt, nt_coeff = None \<rparr>,
          \<lparr> nt_term = [1], nt_func = Exp, nt_coeff = None \<rparr>,
          \<lparr> nt_term = [1], nt_func = Log, nt_coeff = None \<rparr>]
       = Inr [\<lparr> nt_term = [2], nt_func = Exp, nt_coeff = None \<rparr>,
            \<lparr> nt_term = [1], nt_func = Cos, nt_coeff = None \<rparr>,
            \<lparr> nt_term = [1], nt_func = Exp, nt_coeff = None \<rparr>]"
proof -
  define leaf where "leaf = \<lparr> terms = [[2], [1]], funcs = [Cos, Id], coeffs = [Fin 1, Fin 1], len = 2, score = Some (1 / 2) \<rparr>"
  define Xs where "Xs = [[Fin 0], [Fin 0]]"
  define ys where "ys = [Fin 2, Fin 2]"
  define P where "P = (\<lambda>nt. \<exists>s a b. sanitizeIT (composeIT (copyIT leaf) nt) = Inr s
                            \<and> score (fitIT s Xs ys) = Some a \<and> score leaf = Some b \<and> b < a)"
  define cs where "cs = [\<lparr> nt_term = [4], nt_func = Id, nt_coeff = None \<rparr>,
      \<lparr> nt_term = [0], nt_func = Id, nt_coeff = None \<rparr>,
      \<lparr> nt_term = [3], nt_func = Id, nt_coeff = None \<rparr>,
      \<lparr> nt_term = [1], nt_func = Id, nt_coeff = None \<rparr>,
      \<lparr> nt_term = [2], nt_func = Sin, nt_coeff = None \<rparr>,
      \<lparr> nt_term = [2], nt_func = Tan, nt_coeff = None \<rparr>,
      \<lparr> nt_term = [2], nt_func = Abs, nt_coeff = None \<rparr>,
      \<lparr> nt_term = [2], nt_func = Id, nt_coeff = None \<rparr>,
      \<lparr> nt_term = [2], nt_func = Sqrt, nt_coeff = None \<rparr>,
      \<lparr> nt_term = [2], nt_func = Exp, nt_coeff = None \<rparr>,
      \<lparr> nt_term = [2], nt_func = Log, nt_coeff = None \<rparr>,
      \<lparr> nt_term = [2], nt_func = Id, nt_coeff = None \<rparr>,
      \<lparr> nt_term = [0], nt_func = Id, nt_coeff = None \<rparr>,
      \<lparr> nt_term = [1], nt_func = Sin, nt_coeff = None \<rparr>,
      \<lparr> nt_term = [1], nt_func = Cos, nt_coeff = None \<rparr>,
      \<lparr> nt_term = [1], nt_func = Tan, nt_coeff = None \<rparr>,
      \<lparr> nt_term = [1], nt_func = Abs, nt_coeff = None \<rparr>,
      \<lparr> nt_term = [1], nt_func = Sqrt, nt_coeff = None \<rparr>,
      \<lparr> nt_term = [1], nt_func = Exp, nt_coeff = None \<rparr>,
      \<lparr> nt_term = [1], nt_func = Log, nt_coeff = None \<rparr>]"
  have h: "aligned leaf" by (simp add: leaf_def aligned_def)
  from toExpand_candidates_and_filter [OF h, of 0 0 0 Xs ys]
  obtain cands where c: "toExpand leaf 0 0 0 = Inr cands"
    and k: "improving Xs ys leaf cands = Inr (filter P cands)"
    unfolding P_def by (elim exE conjE)
  have e: "toExpand leaf 0 0 0 = Inr cs"
    unfolding cs_def
    by (simp add: leaf_def toExpand_def pushed_for_def interaction_def subtraction_def swapped_def
        funsKeys_def nth_opt_def upt_rec numeral_2_eq_2)
  with c have cc: "cands = cs" by simp
  have p1: "P \<lparr> nt_term = [4], nt_func = Id, nt_coeff = None \<rparr> = False"
    unfolding P_def leaf_def Xs_def ys_def
    by (simp add: san_eval fit_eval numeral_2_eq_2 numeral_3_eq_3)
  have p2: "P \<lparr> nt_term = [0], nt_func = Id, nt_coeff = None \<rparr> = False"
    unfolding P_def leaf_def Xs_def ys_def
    by (simp add: san_eval fit_eval numeral_2_eq_2 numeral_3_eq_3)
  have p3: "P \<lparr> nt_term = [3], nt_func = Id, nt_coeff = None \<rparr> = False"
    unfolding P_def leaf_def Xs_def ys_def
    by (simp add: san_eval fit_eval numeral_2_eq_2 numeral_3_eq_3)
  have p4: "P \<lparr> nt_term = [1], nt_func = Id, nt_coeff = None \<rparr> = False"
    unfolding P_def leaf_def Xs_def ys_def
    by (simp add: san_eval fit_eval numeral_2_eq_2 numeral_3_eq_3)
  have p5: "P \<lparr> nt_term = [2], nt_func = Sin, nt_coeff = None \<rparr> = False"
    unfolding P_def leaf_def Xs_def ys_def
    by (simp add: san_eval fit_eval numeral_2_eq_2 numeral_3_eq_3)
  have p6: "P \<lparr> nt_term = [2], nt_func = Tan, nt_coeff = None \<rparr> = False"
    unfolding P_def leaf_def Xs_def ys_def
    by (simp add: san_eval fit_eval numeral_2_eq_2 numeral_3_eq_3)
  have p7: "P \<lparr> nt_term = [2], nt_func = Abs, nt_coeff = None \<rparr> = False"
    unfolding P_def leaf_def Xs_def ys_def
    by (simp add: san_eval fit_eval numeral_2_eq_2 numeral_3_eq_3)
  have p8: "P \<lparr> nt_term = [2], nt_func = Id, nt_coeff = None \<rparr> = False"
    unfolding P_def leaf_def Xs_def ys_def
    by (simp add: san_eval fit_eval numeral_2_eq_2 numeral_3_eq_3)
  have p9: "P \<lparr> nt_term = [2], nt_func = Sqrt, nt_coeff = None \<rparr> = False"
    unfolding P_def leaf_def Xs_def ys_def
    by (simp add: san_eval fit_eval numeral_2_eq_2 numeral_3_eq_3)
  have p10: "P \<lparr> nt_term = [2], nt_func = Exp, nt_coeff = None \<rparr> = True"
    unfolding P_def leaf_def Xs_def ys_def
    by (simp add: san_eval fit_eval numeral_2_eq_2 numeral_3_eq_3, rule exI[of _ "1 / 2"], simp)
  have p11: "P \<lparr> nt_term = [2], nt_func = Log, nt_coeff = None \<rparr> = False"
    unfolding P_def leaf_def Xs_def ys_def
    by (simp add: san_eval fit_eval numeral_2_eq_2 numeral_3_eq_3)
  have p12: "P \<lparr> nt_term = [1], nt_func = Sin, nt_coeff = None \<rparr> = False"
    unfolding P_def leaf_def Xs_def ys_def
    by (simp add: san_eval fit_eval numeral_2_eq_2 numeral_3_eq_3)
  have p13: "P \<lparr> nt_term = [1], nt_func = Cos, nt_coeff = None \<rparr> = True"
    unfolding P_def leaf_def Xs_def ys_def
    by (simp add: san_eval fit_eval numeral_2_eq_2 numeral_3_eq_3, rule exI[of _ "1 / 2"], simp)
  have p14: "P \<lparr> nt_term = [1], nt_func = Tan, nt_coeff = None \<rparr> = False"
    unfolding P_def leaf_def Xs_def ys_def
    by (simp add: san_eval fit_eval numeral_2_eq_2 numeral_3_eq_3)
  have p15: "P \<lparr> nt_term = [1], nt_func = Abs, nt_coeff = None \<rparr> = False"
    unfolding P_def leaf_def Xs_def ys_def
    by (simp add: san_eval fit_eval numeral_2_eq_2 numeral_3_eq_3)
  have p16: "P \<lparr> nt_term = [1], nt_func = Sqrt, nt_coeff = None \<rparr> = False"
    unfolding P_def leaf_def Xs_def ys_def
    by (simp add: san_eval fit_eval numeral_2_eq_2 numeral_3_eq_3)
  have p17: "P \<lparr> nt_term = [1], nt_func = Exp, nt_coeff = None \<rparr> = True"
    unfolding P_def leaf_def Xs_def ys_def
    by (simp add: san_eval fit_eval numeral_2_eq_2 numeral_3_eq_3, rule exI[of _ "1 / 2"], simp)
  have p18: "P \<lparr> nt_term = [1], nt_func = Log, nt_coeff = None \<rparr> = False"
    unfolding P_def leaf_def Xs_def ys_def
    by (simp add: san_eval fit_eval numeral_2_eq_2 numeral_3_eq_3)
  have "filter P cs = [\<lparr> nt_term = [2], nt_func = Exp, nt_coeff = None \<rparr>,
      \<lparr> nt_term = [1], nt_func = Cos, nt_coeff = None \<rparr>,
      \<lparr> nt_term = [1], nt_func = Exp, nt_coeff = None \<rparr>]"
    unfolding cs_def by (simp add: p1 p2 p3 p4 p5 p6 p7 p8 p9 p10 p11 p12 p13 p14 p15 p16 p17 p18)
  with k have r: "improving Xs ys leaf cs = Inr [\<lparr> nt_term = [2], nt_func = Exp, nt_coeff = None \<rparr>,
      \<lparr> nt_term = [1], nt_func = Cos, nt_coeff = None \<rparr>,
      \<lparr> nt_term = [1], nt_func = Exp, nt_coeff = None \<rparr>]"
    by (simp only: cc)
  from h e r show ?thesis unfolding cs_def leaf_def Xs_def ys_def by (intro conjI)
qed

section \<open>The initial population\<close>

text \<open>
  \<open>Array.from({length: n}, f)\<close> calls \<open>f\<close> \<open>n\<close> times; a negative \<open>n\<close> counts as zero,
  and a number above \<open>2^32 - 1\<close> is no array length.
\<close>

definition array_length :: "int \<Rightarrow> js_error + nat" where
  "array_length n = (if 2 ^ 32 - 1 < n then Inl RangeError else Inr (nat n))"

text \<open>
  \<open>Math.round(popSize / (maxSize - minSize + 1))\<close> as the length of an array. The callback
  of \<open>range(minSize, maxSize+1).forEach\<close> runs with a divisor that is not negative; on a
  zero divisor the quotient is infinite for a positive \<open>popSize\<close>, and NaN or negative
  infinity otherwise, which count as zero.
\<close>

definition group_size :: "int \<Rightarrow> int \<Rightarrow> int \<Rightarrow> js_error + nat" where
  "group_size popSize minSize maxSize =
     (let d = maxSize - minSize + 1 in
      if d = 0 then (if 0 < popSize then Inl RangeError else Inr 0)
      else array_length \<lfloor>real_of_int popSize / real_of_int d + 1 / 2\<rfloor>)"

text \<open>\<open>fitIT(sanitizeIT(buildRandIT(expSize, nvars, expolim)), Xs, ys)\<close>\<close>

definition individual ::
  "jsnum list list \<Rightarrow> jsnum list \<Rightarrow> nat \<Rightarrow> int \<Rightarrow> int \<Rightarrow> real list \<Rightarrow> js_error + (IT \<times> real list)" where
  "individual Xs ys nvars expolim expSize rs =
     and_then (buildRandIT expSize nvars expolim rs) (\<lambda>(m, rest).
     and_then (sanitizeIT m) (\<lambda>s. Inr (fitIT s Xs ys, rest)))"

text \<open>A callback that reads draws, called \<open>n\<close> times in a row.\<close>

fun repeat :: "nat \<Rightarrow> (real list \<Rightarrow> js_error + ('a \<times> real list)) \<Rightarrow> real list \<Rightarrow> js_error + ('a list \<times> real list)" where
  "repeat 0 f rs = Inr ([], rs)"
| "repeat (Suc n) f rs =
     and_then (f rs) (\<lambda>(x, rest).
     and_then (repeat n f rest) (\<lambda>(xs, rest'). Inr (x # xs, rest')))"

fun groups ::
  "jsnum list list \<Rightarrow> jsnum list \<Rightarrow> nat \<Rightarrow> int \<Rightarrow> int \<Rightarrow> int \<Rightarrow> int \<Rightarrow> int list \<Rightarrow> real list
     \<Rightarrow> js_error + (IT list \<times> real list)" where
  "groups Xs ys nvars expolim popSize minSize maxSize [] rs = Inr ([], rs)"
| "groups Xs ys nvars expolim popSize minSize maxSize (expSize # sizes) rs =
     and_then (group_size popSize minSize maxSize) (\<lambda>n.
     and_then (repeat n (individual Xs ys nvars expolim expSize) rs) (\<lambda>(g, rest).
     and_then (groups Xs ys nvars expolim popSize minSize maxSize sizes rest) (\<lambda>(pop, rest').
       Inr (g @ pop, rest'))))"

definition initial_pop ::
  "jsnum list list \<Rightarrow> jsnum list \<Rightarrow> nat \<Rightarrow> int \<Rightarrow> int \<Rightarrow> int \<Rightarrow> int \<Rightarrow> real list
     \<Rightarrow> js_error + (IT list \<times> real list)" where
  "initial_pop Xs ys nvars expolim popSize minSize maxSize rs =
     and_then (range minSize (maxSize + 1) 1) (\<lambda>sizes.
       groups Xs ys nvars expolim popSize minSize maxSize sizes rs)"

section \<open>Evolutionary search\<close>

text \<open>
  A tournament of two: two members drawn with replacement, the first kept only when its
  score is strictly greater, and a copy returned. An index with no member gives
  \<open>undefined\<close>, whose \<open>score\<close> raises a TypeError.
\<close>

definition member_at :: "IT list \<Rightarrow> real \<Rightarrow> js_error + IT" where
  "member_at xs r =
     (let k = random_index (length xs) r in
      if 0 \<le> k \<and> nat k < length xs then Inr (xs ! nat k) else Inl TypeError)"

definition tournament :: "IT list \<Rightarrow> real list \<Rightarrow> js_error + (IT \<times> real list)" where
  "tournament xs rs =
     and_then (Math_random rs) (\<lambda>(r1, rest1).
     and_then (Math_random rest1) (\<lambda>(r2, rest2).
     and_then (member_at xs r1) (\<lambda>exp1.
     and_then (member_at xs r2) (\<lambda>exp2.
       Inr (copyIT (if score_gt (score exp1) (score exp2) then exp1 else exp2), rest2)))))"

text \<open>The mutation of one parent: a coin, one of the two mutations, then sanitize and fit.\<close>

definition mutate ::
  "jsnum list list \<Rightarrow> jsnum list \<Rightarrow> nat \<Rightarrow> int \<Rightarrow> IT \<Rightarrow> real list \<Rightarrow> js_error + (IT \<times> real list)" where
  "mutate Xs ys nvars expolim parentIT rs =
     and_then (Math_random rs) (\<lambda>(coin, rest).
     and_then (if 1 / 2 < coin then mutateopIT parentIT rest else mutatetermsIT parentIT nvars expolim rest)
       (\<lambda>(m, rest').
     and_then (sanitizeIT m) (\<lambda>s. Inr (fitIT s Xs ys, rest'))))"

fun mutate_all ::
  "jsnum list list \<Rightarrow> jsnum list \<Rightarrow> nat \<Rightarrow> int \<Rightarrow> IT list \<Rightarrow> real list \<Rightarrow> js_error + (IT list \<times> real list)" where
  "mutate_all Xs ys nvars expolim [] rs = Inr ([], rs)"
| "mutate_all Xs ys nvars expolim (parentIT # rest) rs =
     and_then (mutate Xs ys nvars expolim parentIT rs) (\<lambda>(m, rs1).
     and_then (mutate_all Xs ys nvars expolim rest rs1) (\<lambda>(ms, rs2). Inr (m # ms, rs2)))"

text \<open>
  One generation, the callback of \<open>range(0, generations).some\<close>. Its state is the
  population, the tracked best and the draws that are left.
\<close>

definition ITES_generation ::
  "jsnum list list \<Rightarrow> jsnum list \<Rightarrow> nat \<Rightarrow> int \<Rightarrow> int \<Rightarrow> int \<Rightarrow> jsnum
     \<Rightarrow> IT list \<times> IT \<times> real list \<Rightarrow> int \<Rightarrow> js_error + ((IT list \<times> IT \<times> real list) \<times> bool)" where
  "ITES_generation Xs ys nvars expolim popSize selectedSize stopScore state g =
     (case state of (pop, best, rs) \<Rightarrow>
        and_then (array_length selectedSize) (\<lambda>nsel.
        and_then (repeat nsel (tournament pop) rs) (\<lambda>(selected, rs1).
        and_then (mutate_all Xs ys nvars expolim selected rs1) (\<lambda>(parents, rs2).
        and_then (array_length popSize) (\<lambda>npop.
        and_then (repeat npop (tournament parents) rs2) (\<lambda>(pop', rs3).
        and_then (reduce_bestScore pop') (\<lambda>best'.
          Inr ((pop', best', rs3), reached best' stopScore))))))))"

text \<open>The state when the loop of \<open>ITES\<close> or \<open>ITLS\<close> starts: the population and its best.\<close>

definition search_start ::
  "jsnum list list \<Rightarrow> jsnum list \<Rightarrow> int \<Rightarrow> int \<Rightarrow> int \<Rightarrow> int \<Rightarrow> real list
     \<Rightarrow> js_error + (nat \<times> IT list \<times> IT \<times> real list)" where
  "search_start Xs ys popSize minSize maxSize expolim rs =
     (case Xs of
        [] \<Rightarrow> Inl TypeError
      | X0 # _ \<Rightarrow>
          and_then (initial_pop Xs ys (length X0) expolim popSize minSize maxSize rs) (\<lambda>(pop, rest).
          and_then (reduce_bestScore pop) (\<lambda>best. Inr (length X0, pop, best, rest))))"

definition ITES ::
  "jsnum list list \<Rightarrow> jsnum list \<Rightarrow> int \<Rightarrow> int \<Rightarrow> int \<Rightarrow> int \<Rightarrow> int \<Rightarrow> int \<Rightarrow> jsnum
     \<Rightarrow> real list \<Rightarrow> js_error + IT" where
  "ITES Xs ys popSize selectedSize minSize maxSize expolim generations stopScore rs =
     and_then (search_start Xs ys popSize minSize maxSize expolim rs) (\<lambda>(nvars, pop, best, rest).
     and_then (range 0 generations 1) (\<lambda>gs.
     and_then (js_some (ITES_generation Xs ys nvars expolim popSize selectedSize stopScore) (pop, best, rest) gs)
       (\<lambda>((pop', best', rest'), stopped).
       Inr (simplifyIT best' Xs ys nvars (Fin (5 / 1000))))))"

section \<open>Local search\<close>

text \<open>
  One neighbor of \<open>best\<close>: a copy with the exponent at \<open>(termIdx, tIdx)\<close> moved by
  \<open>tIncrement\<close> and the function at \<open>termIdx\<close> replaced. It is \<open>undefined\<close> (\<open>None\<close>),
  and filtered out, when the moved term is all-zero. A term index with no term raises a
  TypeError; a variable index with no exponent stores NaN.
\<close>

definition neighbor :: "IT \<Rightarrow> nat \<Rightarrow> nat \<Rightarrow> nat \<Rightarrow> int \<Rightarrow> js_error + IT option" where
  "neighbor best termIdx opIdx tIdx tIncrement =
     (if length (terms best) \<le> termIdx then Inl TypeError
      else if length (terms best ! termIdx) \<le> tIdx then Inl OutsideModel
      else
        let moved = (terms best ! termIdx)[tIdx := terms best ! termIdx ! tIdx + tIncrement] in
        and_then (js_store (funcs (copyIT best)) (int termIdx) (funsKeys ! opIdx)) (\<lambda>fs.
          Inr (if all_zero moved then None
               else Some ((copyIT best)\<lparr>terms := (terms best)[termIdx := moved], funcs := fs\<rparr>))))"

text \<open>Results in order, up to the first failure; \<open>undefined\<close> entries are dropped.\<close>

fun collect :: "(js_error + 'a option) list \<Rightarrow> js_error + 'a list" where
  "collect [] = Inr []"
| "collect (x # xs) =
     and_then x (\<lambda>y. and_then (collect xs) (\<lambda>ys. Inr (case y of None \<Rightarrow> ys | Some v \<Rightarrow> v # ys)))"

definition neighbors :: "IT \<Rightarrow> nat \<Rightarrow> js_error + IT list" where
  "neighbors best nvars =
     collect (concat (map (\<lambda>termIdx. concat (map (\<lambda>opIdx. concat (map (\<lambda>tIdx.
        map (\<lambda>tIncrement. neighbor best termIdx opIdx tIdx tIncrement) [- 1, 0, 1])
        [0..<nvars])) [0..<length funsKeys])) [0..<len best]))"

text \<open>
  The callback of \<open>neighbors.some\<close>. \<open>sanitizeIT\<close> and \<open>fitIT\<close> work on the object
  \<open>neigh\<close> itself: when \<open>sanitizeIT\<close> returns it, \<open>neigh\<close> is the fitted model; when
  \<open>sanitizeIT\<close> returns its backup, the backup is fitted and \<open>neigh\<close> is left as the
  splices made it, empty and with the score it was copied with. \<open>neigh\<close> is what becomes
  the best.
\<close>

definition scan_step ::
  "jsnum list list \<Rightarrow> jsnum list \<Rightarrow> jsnum \<Rightarrow> IT \<Rightarrow> IT \<Rightarrow> js_error + (IT \<times> bool)" where
  "scan_step Xs ys stopScore best neigh =
     (case toRemove neigh of
        Inl e \<Rightarrow> Inl e
      | Inr rs \<Rightarrow>
          let object = pruned neigh rs;
              returned = (if len object = 0 then copyIT neigh else object);
              fitted = fitIT returned Xs ys;
              neigh' = (if len object = 0 then object else fitted);
              best' = (if score_gt (score fitted) (score best) then neigh' else best)
          in Inr (best', reached best' stopScore))"

definition ITLS_iteration ::
  "jsnum list list \<Rightarrow> jsnum list \<Rightarrow> nat \<Rightarrow> jsnum \<Rightarrow> IT \<Rightarrow> int \<Rightarrow> js_error + (IT \<times> bool)" where
  "ITLS_iteration Xs ys nvars stopScore best i =
     and_then (neighbors best nvars) (\<lambda>ns. js_some (scan_step Xs ys stopScore) best ns)"

definition ITLS ::
  "jsnum list list \<Rightarrow> jsnum list \<Rightarrow> int \<Rightarrow> int \<Rightarrow> int \<Rightarrow> int \<Rightarrow> int \<Rightarrow> jsnum
     \<Rightarrow> real list \<Rightarrow> js_error + IT" where
  "ITLS Xs ys popSize minSize maxSize expolim iterations stopScore rs =
     and_then (search_start Xs ys popSize minSize maxSize expolim rs) (\<lambda>(nvars, pop, best, rest).
     and_then (range 0 iterations 1) (\<lambda>is.
     and_then (js_some (ITLS_iteration Xs ys nvars stopScore) best is) (\<lambda>(best', stopped).
       Inr (simplifyIT best' Xs ys nvars (Fin (5 / 1000))))))"

lemma range_empty: "range start start 1 = Inr [start]"
  by (simp add: range_def)

lemma range_negative: "stop < start \<Longrightarrow> range start stop 1 = Inl RangeError"
proof -
  assume "stop < start"
  then have "stop - start \<le> - 1" by simp
  then have "\<lceil>real_of_int (stop - start) / real_of_int 1\<rceil> < 0" by simp
  then show ?thesis by (simp add: range_def Let_def)
qed

lemma js_some_single: "js_some body s [x] = and_then (body s x) (\<lambda>(s', stop). Inr (s', stop))"
  by (auto simp: and_then_def split: sum.splits)

text \<open>
  Claim C10, as the source has it. \<open>range(start, start)\<close> is \<open>[start]\<close>, so with a budget
  of zero each of the three searches runs its loop body exactly once, at index \<open>0\<close>, and
  returns the simplified best of the state after that one run. With a budget below zero
  \<open>Array\<close> is called with a negative length: \<open>range\<close> raises a RangeError, and so does
  the search once its start has succeeded; no iteration runs.
\<close>

theorem zero_budget_runs_once:
  "range start start 1 = Inr [start]
   \<and> (stop < start \<longrightarrow> range start stop 1 = Inl RangeError)
   \<and> ITES Xs ys popSize selectedSize minSize maxSize expolim 0 stopScore rs =
       and_then (search_start Xs ys popSize minSize maxSize expolim rs) (\<lambda>(nvars, pop, best, rest).
       and_then (ITES_generation Xs ys nvars expolim popSize selectedSize stopScore (pop, best, rest) 0)
         (\<lambda>((pop', best', rest'), stopped). Inr (simplifyIT best' Xs ys nvars (Fin (5 / 1000)))))
   \<and> ITLS Xs ys popSize minSize maxSize expolim 0 stopScore rs =
       and_then (search_start Xs ys popSize minSize maxSize expolim rs) (\<lambda>(nvars, pop, best, rest).
       and_then (ITLS_iteration Xs ys nvars stopScore best 0)
         (\<lambda>(best', stopped). Inr (simplifyIT best' Xs ys nvars (Fin (5 / 1000)))))
   \<and> SYMTREE (X0 # Xs') ys 0 threshold minI minT stopScore =
       and_then (SYMTREE_iteration (X0 # Xs') ys (length X0) threshold minI minT stopScore
                   [fitIT (buildRootIT (length X0)) (X0 # Xs') ys] 0) (\<lambda>(leaves, stopped).
       and_then (reduce_bestScore leaves) (\<lambda>b.
         Inr (simplifyIT b (X0 # Xs') ys (length X0) (Fin (5 / 1000)))))
   \<and> (budget < 0 \<and> search_start Xs ys popSize minSize maxSize expolim rs = Inr start_state \<longrightarrow>
        ITES Xs ys popSize selectedSize minSize maxSize expolim budget stopScore rs = Inl RangeError
        \<and> ITLS Xs ys popSize minSize maxSize expolim budget stopScore rs = Inl RangeError)
   \<and> (budget < 0 \<longrightarrow> SYMTREE (X0 # Xs') ys budget threshold minI minT stopScore = Inl RangeError)"
proof (intro conjI impI)
  show "range start start 1 = Inr [start]" by (rule range_empty)
next
  assume "stop < start"
  then show "range start stop 1 = Inl RangeError" by (rule range_negative)
next
  show "ITES Xs ys popSize selectedSize minSize maxSize expolim 0 stopScore rs =
       and_then (search_start Xs ys popSize minSize maxSize expolim rs) (\<lambda>(nvars, pop, best, rest).
       and_then (ITES_generation Xs ys nvars expolim popSize selectedSize stopScore (pop, best, rest) 0)
         (\<lambda>((pop', best', rest'), stopped). Inr (simplifyIT best' Xs ys nvars (Fin (5 / 1000)))))"
    unfolding ITES_def range_empty js_some_single
    by (auto simp: and_then_def split: sum.splits)
next
  show "ITLS Xs ys popSize minSize maxSize expolim 0 stopScore rs =
       and_then (search_start Xs ys popSize minSize maxSize expolim rs) (\<lambda>(nvars, pop, best, rest).
       and_then (ITLS_iteration Xs ys nvars stopScore best 0)
         (\<lambda>(best', stopped). Inr (simplifyIT best' Xs ys nvars (Fin (5 / 1000)))))"
    unfolding ITLS_def range_empty js_some_single
    by (auto simp: and_then_def split: sum.splits)
next
  show "SYMTREE (X0 # Xs') ys 0 threshold minI minT stopScore =
       and_then (SYMTREE_iteration (X0 # Xs') ys (length X0) threshold minI minT stopScore
                   [fitIT (buildRootIT (length X0)) (X0 # Xs') ys] 0) (\<lambda>(leaves, stopped).
       and_then (reduce_bestScore leaves) (\<lambda>b.
         Inr (simplifyIT b (X0 # Xs') ys (length X0) (Fin (5 / 1000)))))"
    unfolding SYMTREE_def range_empty js_some_single
    by (auto simp: and_then_def Let_def split: sum.splits)
next
  assume a: "budget < 0 \<and> search_start Xs ys popSize minSize maxSize expolim rs = Inr start_state"
  then have r: "range 0 budget 1 = Inl RangeError" by (simp add: range_negative)
  show "ITES Xs ys popSize selectedSize minSize maxSize expolim budget stopScore rs = Inl RangeError"
    using a by (auto simp: ITES_def r and_then_def split: prod.splits)
  show "ITLS Xs ys popSize minSize maxSize expolim budget stopScore rs = Inl RangeError"
    using a by (auto simp: ITLS_def r and_then_def split: prod.splits)
next
  assume "budget < 0"
  then have r: "range 0 budget 1 = Inl RangeError" by (rule range_negative)
  show "SYMTREE (X0 # Xs') ys budget threshold minI minT stopScore = Inl RangeError"
    by (simp add: SYMTREE_def r and_then_def Let_def)
qed

lemma collect_member:
  "collect xs = Inr ys \<Longrightarrow> y \<in> set ys \<Longrightarrow> Inr (Some y) \<in> set xs"
proof (induction xs arbitrary: ys)
  case Nil
  then show ?case by simp
next
  case (Cons x xs)
  then obtain v ys1 where x: "x = Inr v" and c: "collect xs = Inr ys1"
    and ys: "ys = (case v of None \<Rightarrow> ys1 | Some w \<Rightarrow> w # ys1)"
    by (auto simp: and_then_def split: sum.splits)
  show ?case
  proof (cases "y \<in> set ys1")
    case True
    then show ?thesis using Cons.IH[OF c] by simp
  next
    case False
    then have "v = Some y" using ys Cons.prems(2) by (cases v) auto
    then show ?thesis using x by simp
  qed
qed

lemma collect_total:
  "(\<And>x. x \<in> set xs \<Longrightarrow> \<exists>v. x = Inr v) \<Longrightarrow> \<exists>ys. collect xs = Inr ys"
proof (induction xs)
  case Nil
  then show ?case by simp
next
  case (Cons x xs)
  then obtain v where "x = Inr v" by fastforce
  moreover obtain ys where "collect xs = Inr ys" using Cons by fastforce
  ultimately show ?case by (simp add: and_then_def)
qed

text \<open>A neighbor of a well-formed model: one term and one function replaced.\<close>

definition neighbor_of :: "nat \<Rightarrow> IT \<Rightarrow> IT \<Rightarrow> bool" where
  "neighbor_of nvars best n \<longleftrightarrow>
     (\<exists>t tm f. t < len best \<and> length tm = nvars \<and> \<not> all_zero tm
        \<and> n = best\<lparr>terms := (terms best)[t := tm], funcs := (funcs best)[t := f]\<rparr>)"

lemma neighbor_wf:
  assumes wf: "wf_IT nvars best" and t: "termIdx < len best" and v: "tIdx < nvars"
  shows "\<exists>r. neighbor best termIdx opIdx tIdx tIncrement = Inr r
            \<and> (\<forall>n. r = Some n \<longrightarrow> neighbor_of nvars best n)"
proof -
  have lt: "termIdx < length (terms best)" "termIdx < length (funcs best)"
    using wf t by (simp_all add: wf_IT_def aligned_def)
  have lv: "length (terms best ! termIdx) = nvars"
    using wf lt by (simp add: wf_IT_def)
  let ?moved = "(terms best ! termIdx)[tIdx := terms best ! termIdx ! tIdx + tIncrement]"
  have st: "js_store (funcs best) (int termIdx) (funsKeys ! opIdx)
           = Inr ((funcs best)[termIdx := funsKeys ! opIdx])"
    using lt by (simp add: js_store_def)
  have "neighbor best termIdx opIdx tIdx tIncrement =
      Inr (if all_zero ?moved then None
           else Some (best\<lparr>terms := (terms best)[termIdx := ?moved],
                            funcs := (funcs best)[termIdx := funsKeys ! opIdx]\<rparr>))"
    using lt lv v by (simp add: neighbor_def st and_then_def copyIT_same Let_def)
  moreover have "neighbor_of nvars best (best\<lparr>terms := (terms best)[termIdx := ?moved],
                            funcs := (funcs best)[termIdx := funsKeys ! opIdx]\<rparr>)"
    if "\<not> all_zero ?moved"
    unfolding neighbor_of_def
    by (rule exI[of _ termIdx], rule exI[of _ ?moved], rule exI[of _ "funsKeys ! opIdx"])
       (use t lv that in simp)
  ultimately show ?thesis by auto
qed

lemma neighbors_wf:
  assumes wf: "wf_IT nvars best"
  shows "\<exists>ns. neighbors best nvars = Inr ns \<and> (\<forall>n \<in> set ns. neighbor_of nvars best n)"
proof -
  let ?xs = "concat (map (\<lambda>termIdx. concat (map (\<lambda>opIdx. concat (map (\<lambda>tIdx.
        map (\<lambda>tIncrement. neighbor best termIdx opIdx tIdx tIncrement) [- 1, 0, 1])
        [0..<nvars])) [0..<length funsKeys])) [0..<len best])"
  have each: "\<exists>r. x = Inr r \<and> (\<forall>n. r = Some n \<longrightarrow> neighbor_of nvars best n)" if "x \<in> set ?xs" for x
  proof -
    from that obtain termIdx opIdx tIdx tIncrement
      where "termIdx < len best" "tIdx < nvars"
        and "x = neighbor best termIdx opIdx tIdx tIncrement"
      by auto
    then show ?thesis using neighbor_wf[OF wf] by simp
  qed
  then obtain ns where ns: "collect ?xs = Inr ns" using collect_total[of ?xs] by blast
  have "neighbor_of nvars best n" if "n \<in> set ns" for n
    using collect_member[OF ns that] each by fastforce
  then show ?thesis using ns by (simp add: neighbors_def)
qed

lemma clean_no_pair:
  assumes "wf_IT nvars m" and "clean m" and "d < j" and "j < len m"
  shows "\<not> (terms m ! d = terms m ! j \<and> funcs m ! d = funcs m ! j)"
proof
  assume "terms m ! d = terms m ! j \<and> funcs m ! d = funcs m ! j"
  then have "j \<in> set (later_duplicates m d)"
    using assms later_duplicates_wf[OF assms(1), of d] by simp
  moreover have "later_duplicates m d = []" using assms by (simp add: clean_def)
  ultimately show False by simp
qed

lemma neighbor_of_wf:
  assumes "wf_IT nvars best" and "neighbor_of nvars best n"
  shows "wf_IT nvars n"
proof -
  from assms(2) obtain t tm f where t: "t < len best" and tm: "length tm = nvars"
    and n: "n = best\<lparr>terms := (terms best)[t := tm], funcs := (funcs best)[t := f]\<rparr>"
    unfolding neighbor_of_def by blast
  have "set ((terms best)[t := tm]) \<subseteq> insert tm (set (terms best))" by (rule set_update_subset_insert)
  then show ?thesis using assms(1) tm unfolding n wf_IT_def aligned_def by auto
qed

lemma neighbor_not_wiped:
  assumes wf: "wf_IT nvars best" and cl: "clean best" and nb: "neighbor_of nvars best n"
  shows "\<exists>rs. toRemove n = Inr rs \<and> len (pruned n rs) \<noteq> 0"
proof -
  from nb obtain t tm f where t: "t < len best" and tm: "length tm = nvars" and nz: "\<not> all_zero tm"
    and n: "n = best\<lparr>terms := (terms best)[t := tm], funcs := (funcs best)[t := f]\<rparr>"
    unfolding neighbor_of_def by blast
  let ?N = "len best"
  have wfn: "wf_IT nvars n" using wf nb by (rule neighbor_of_wf)
  have al: "aligned n" using wfn by (simp add: wf_IT_def)
  have ln: "len n = ?N" and lt: "length (terms n) = ?N"
    using wf by (simp_all add: n wf_IT_def aligned_def)
  have lb: "length (terms best) = ?N" "length (funcs best) = ?N"
    using wf by (simp_all add: wf_IT_def aligned_def)
  have tn: "terms n ! k = (if k = t then tm else terms best ! k)" if "k < ?N" for k
    using that lb by (simp add: n nth_list_update)
  have fn: "funcs n ! k = (if k = t then f else funcs best ! k)" if "k < ?N" for k
    using that lb by (simp add: n nth_list_update)
  have nonzero: "\<not> all_zero (terms n ! k)" if "k < ?N" for k
    using that nz cl by (simp add: tn clean_def)
  have one: "length (later_duplicates n d) \<le> 1" if d: "d < ?N" for d
    unfolding later_duplicates_def
  proof (rule length_filter_le_1)
    show "distinct [Suc d..<len n]" by simp
  next
    fix x y
    assume x: "x \<in> set [Suc d..<len n]" and y: "y \<in> set [Suc d..<len n]"
      and px: "same_term (terms n ! d) (terms n ! x) \<and> nth_opt (funcs n) d = nth_opt (funcs n) x"
      and py: "same_term (terms n ! d) (terms n ! y) \<and> nth_opt (funcs n) d = nth_opt (funcs n) y"
    have xr: "d < x" "x < ?N" and yr: "d < y" "y < ?N" using x y ln by simp_all
    have "x \<in> set (later_duplicates n d)" "y \<in> set (later_duplicates n d)"
      using x y px py by (simp_all add: later_duplicates_def)
    then have ex: "terms n ! d = terms n ! x" "funcs n ! d = funcs n ! x"
      and ey: "terms n ! d = terms n ! y" "funcs n ! d = funcs n ! y"
      using later_duplicates_wf[OF wfn, of d] d ln by simp_all
    show "x = y"
    proof (cases "d = t")
      case True
      then have "x \<noteq> t" "y \<noteq> t" using xr yr by simp_all
      then have e: "terms best ! x = terms best ! y" "funcs best ! x = funcs best ! y"
        using ex ey xr yr by (simp_all add: tn fn)
      show ?thesis
      proof (rule ccontr)
        assume "x \<noteq> y"
        then consider "x < y" | "y < x" by linarith
        then show False
        proof cases
          case 1
          then show False using clean_no_pair[OF wf cl 1 yr(2)] e by simp
        next
          case 2
          then show False using clean_no_pair[OF wf cl 2 xr(2)] e by simp
        qed
      qed
    next
      case False
      have "x = t"
      proof (rule ccontr)
        assume "x \<noteq> t"
        then have "terms best ! d = terms best ! x \<and> funcs best ! d = funcs best ! x"
          using ex False d xr by (simp add: tn fn)
        then show False using clean_no_pair[OF wf cl xr] by simp
      qed
      moreover have "y = t"
      proof (rule ccontr)
        assume "y \<noteq> t"
        then have "terms best ! d = terms best ! y \<and> funcs best ! d = funcs best ! y"
          using ey False d yr by (simp add: tn fn)
        then show False using clean_no_pair[OF wf cl yr] by simp
      qed
      ultimately show ?thesis by simp
    qed
  qed
  let ?rs = "concat (map (pushed n) [0..<len n])"
  have rs: "toRemove n = Inr ?rs" using lt ln by (simp add: toRemove_aligned)
  have "\<forall>d<length (terms n). length (pushed n d) \<le> 1"
    using one nonzero lt by (simp add: pushed_def)
  from survivors_exact[OF rs this]
  have sv: "survivors n ?rs = filter (\<lambda>k. \<not> all_zero (terms n ! k) \<and> later_duplicates n k = []) [0..<?N]"
    using lt by simp
  have "?N - 1 < ?N" using t by simp
  moreover have "later_duplicates n (?N - 1) = []"
    using t ln by (simp add: later_duplicates_def)
  ultimately have "?N - 1 \<in> set (survivors n ?rs)"
    unfolding sv using nonzero by simp
  then have "survivors n ?rs \<noteq> []" by auto
  then have "len (pruned n ?rs) \<noteq> 0" using pruned_by_positions(4)[OF al, of ?rs] by simp
  then show ?thesis using rs by blast
qed

text \<open>
  What the scan of \<open>ITLS\<close> keeps true of its best: well-formed, scored, and clean, that is
  with no all-zero exponent vector and no repeated (exponent vector, function) pair.
\<close>

definition search_inv :: "nat \<Rightarrow> IT \<Rightarrow> bool" where
  "search_inv nvars m \<longleftrightarrow> wf_IT nvars m \<and> clean m \<and> score m \<noteq> None"

lemma pruned_wf:
  assumes "wf_IT nvars m" and "toRemove m = Inr rs"
  shows "wf_IT nvars (pruned m rs)"
proof -
  have al: "aligned m" using assms(1) by (simp add: wf_IT_def)
  note p = pruned_by_positions[OF al, of rs]
  have "aligned (pruned m rs)" using p by (simp add: aligned_def)
  moreover have "length t = nvars" if "t \<in> set (terms (pruned m rs))" for t
  proof -
    from that obtain k where "k \<in> set (survivors m rs)" and t: "t = terms m ! k"
      unfolding p(1) by auto
    then have "k < length (terms m)" using survivors_are_last(2)[OF assms(2)] by auto
    then show ?thesis using assms(1) t by (simp add: wf_IT_def)
  qed
  ultimately show ?thesis by (simp add: wf_IT_def)
qed

lemma fitIT_wf: "wf_IT nvars m \<Longrightarrow> wf_IT nvars (fitIT m Xs ys)"
  by (simp add: wf_IT_def fitIT_aligned fitIT_keeps_structure)

lemma fitIT_clean: "clean (fitIT m Xs ys) = clean m"
  by (simp add: clean_def later_duplicates_def fitIT_keeps_structure)

lemma fitIT_scored: "\<exists>s. score (fitIT m Xs ys) = Some s"
  by (simp add: score_fitIT)

lemma scan_step_monotone:
  assumes b0: "search_inv nvars b0" and nb: "neighbor_of nvars b0 n"
    and inv: "search_inv nvars best" and s: "score best = Some s"
  shows "\<exists>best' stop s'. scan_step Xs ys stopScore best n = Inr (best', stop)
           \<and> search_inv nvars best' \<and> score best' = Some s' \<and> s \<le> s'"
proof -
  have wf0: "wf_IT nvars b0" and cl0: "clean b0" using b0 by (simp_all add: search_inv_def)
  from neighbor_not_wiped[OF wf0 cl0 nb] obtain rs
    where rs: "toRemove n = Inr rs" and ne: "len (pruned n rs) \<noteq> 0" by blast
  have wfn: "wf_IT nvars n" using wf0 nb by (rule neighbor_of_wf)
  let ?fitted = "fitIT (pruned n rs) Xs ys"
  obtain x where x: "score ?fitted = Some x" using fitIT_scored by blast
  have aln: "aligned n" using wfn by (simp add: wf_IT_def)
  have fi: "search_inv nvars ?fitted"
    unfolding search_inv_def
  proof (intro conjI)
    show "wf_IT nvars ?fitted" using pruned_wf[OF wfn rs] by (rule fitIT_wf)
    show "clean ?fitted" using pruned_clean[OF aln rs] by (simp only: fitIT_clean)
    show "score ?fitted \<noteq> None" using x by simp
  qed
  have step: "scan_step Xs ys stopScore best n =
      Inr (if score_gt (score ?fitted) (score best) then ?fitted else best,
           reached (if score_gt (score ?fitted) (score best) then ?fitted else best) stopScore)"
    using ne by (simp add: scan_step_def rs Let_def)
  show ?thesis
  proof (cases "score_gt (score ?fitted) (score best)")
    case True
    then have "s \<le> x" using x s by (simp add: score_gt_def)
    then show ?thesis using True step fi x by simp
  next
    case False
    then show ?thesis using step inv s by simp
  qed
qed

lemma scan_all_monotone:
  assumes b0: "search_inv nvars b0" and nb: "\<forall>n \<in> set ns. neighbor_of nvars b0 n"
    and inv: "search_inv nvars best" and s: "score best = Some s"
  shows "\<exists>best' stop s'. js_some (scan_step Xs ys stopScore) best ns = Inr (best', stop)
           \<and> search_inv nvars best' \<and> score best' = Some s' \<and> s \<le> s'"
  using nb inv s
proof (induction ns arbitrary: best s)
  case Nil
  then show ?case
    by (intro exI[of _ best] exI[of _ False] exI[of _ s]) simp
next
  case (Cons n ns)
  have "neighbor_of nvars b0 n" using Cons.prems(1) by simp
  from scan_step_monotone[OF b0 this Cons.prems(2,3), of Xs ys stopScore]
  obtain b1 stop1 s1 where st: "scan_step Xs ys stopScore best n = Inr (b1, stop1)"
    and i1: "search_inv nvars b1" and sc1: "score b1 = Some s1" and le1: "s \<le> s1" by blast
  show ?case
  proof (cases stop1)
    case True
    then show ?thesis using st i1 sc1 le1
      by (intro exI[of _ b1] exI[of _ True] exI[of _ s1]) simp
  next
    case False
    have "\<forall>n \<in> set ns. neighbor_of nvars b0 n" using Cons.prems(1) by simp
    from Cons.IH[OF this i1 sc1]
    obtain b2 stop2 s2 where "js_some (scan_step Xs ys stopScore) b1 ns = Inr (b2, stop2)"
      and "search_inv nvars b2" and "score b2 = Some s2" and "s1 \<le> s2" by blast
    then show ?thesis using st False le1
      by (intro exI[of _ b2] exI[of _ stop2] exI[of _ s2]) simp
  qed
qed

lemma ITLS_iteration_monotone:
  assumes inv: "search_inv nvars best" and s: "score best = Some s"
  shows "\<exists>best' stop s'. ITLS_iteration Xs ys nvars stopScore best i = Inr (best', stop)
           \<and> search_inv nvars best' \<and> score best' = Some s' \<and> s \<le> s'"
proof -
  have "wf_IT nvars best" using inv by (simp add: search_inv_def)
  from neighbors_wf[OF this] obtain ns where ns: "neighbors best nvars = Inr ns"
    and nb: "\<forall>n \<in> set ns. neighbor_of nvars best n" by blast
  from scan_all_monotone[OF inv nb inv s, of Xs ys stopScore]
  show ?thesis by (simp add: ITLS_iteration_def ns and_then_def)
qed

lemma ITLS_loop_monotone:
  assumes inv: "search_inv nvars best" and s: "score best = Some s"
  shows "\<exists>best' stop s'. js_some (ITLS_iteration Xs ys nvars stopScore) best is = Inr (best', stop)
           \<and> search_inv nvars best' \<and> score best' = Some s' \<and> s \<le> s'"
  using inv s
proof (induction "is" arbitrary: best s)
  case Nil
  then show ?case
    by (intro exI[of _ best] exI[of _ False] exI[of _ s]) simp
next
  case (Cons i "is")
  from ITLS_iteration_monotone[OF Cons.prems, of Xs ys stopScore i]
  obtain b1 stop1 s1 where st: "ITLS_iteration Xs ys nvars stopScore best i = Inr (b1, stop1)"
    and i1: "search_inv nvars b1" and sc1: "score b1 = Some s1" and le1: "s \<le> s1" by blast
  show ?case
  proof (cases stop1)
    case True
    then show ?thesis using st i1 sc1 le1
      by (intro exI[of _ b1] exI[of _ True] exI[of _ s1]) simp
  next
    case False
    from Cons.IH[OF i1 sc1]
    obtain b2 stop2 s2 where "js_some (ITLS_iteration Xs ys nvars stopScore) b1 is = Inr (b2, stop2)"
      and "search_inv nvars b2" and "score b2 = Some s2" and "s1 \<le> s2" by blast
    then show ?thesis using st False le1
      by (intro exI[of _ b2] exI[of _ stop2] exI[of _ s2]) simp
  qed
qed

text \<open>
  Claim C1, as the source has it. In \<open>ITLS\<close>, from a best that is well-formed, scored and
  clean, each scan of a neighbor, each iteration and the whole loop return, and the score of
  the tracked best after it is at least the score before; the best stays well-formed and
  clean. \<open>ITES\<close> and \<open>SYMTREE\<close> take the best of the current population and of the
  current leaves, with no comparison to the best before.
\<close>

theorem ITLS_best_never_decreases:
  assumes "wf_IT nvars best" and "clean best" and "score best = Some s"
  shows "(\<forall>n. neighbor_of nvars best n \<longrightarrow>
            (\<exists>best' stop s'. scan_step Xs ys stopScore best n = Inr (best', stop)
               \<and> score best' = Some s' \<and> s \<le> s'))
     \<and> (\<exists>best' stop s'. ITLS_iteration Xs ys nvars stopScore best i = Inr (best', stop)
            \<and> score best' = Some s' \<and> s \<le> s' \<and> wf_IT nvars best' \<and> clean best')
     \<and> (\<exists>best' stop s'. js_some (ITLS_iteration Xs ys nvars stopScore) best is = Inr (best', stop)
            \<and> score best' = Some s' \<and> s \<le> s' \<and> wf_IT nvars best' \<and> clean best')"
proof -
  have inv: "search_inv nvars best" using assms by (simp add: search_inv_def)
  have 1: "\<forall>n. neighbor_of nvars best n \<longrightarrow>
            (\<exists>best' stop s'. scan_step Xs ys stopScore best n = Inr (best', stop)
               \<and> score best' = Some s' \<and> s \<le> s')"
    using scan_step_monotone[OF inv _ inv assms(3), of _ Xs ys stopScore] by blast
  have 2: "\<exists>best' stop s'. ITLS_iteration Xs ys nvars stopScore best i = Inr (best', stop)
            \<and> score best' = Some s' \<and> s \<le> s' \<and> wf_IT nvars best' \<and> clean best'"
    using ITLS_iteration_monotone[OF inv assms(3), of Xs ys stopScore i]
    unfolding search_inv_def by blast
  have 3: "\<exists>best' stop s'. js_some (ITLS_iteration Xs ys nvars stopScore) best is = Inr (best', stop)
            \<and> score best' = Some s' \<and> s \<le> s' \<and> wf_IT nvars best' \<and> clean best'"
    using ITLS_loop_monotone[OF inv assms(3), of Xs ys stopScore "is"]
    unfolding search_inv_def by blast
  from 1 2 3 show ?thesis by (intro conjI)
qed

lemmas search_eval = search_start_def initial_pop_def group_size_def array_length_def individual_def
  buildRandIT_def createTerm.simps member_at_def tournament_def mutate_def mutateopIT_def
  mutatetermsIT_def replace_exponent_def reduce_bestScore_def bestScore_def score_gt_def reached_def
  range_def ITES_generation_def

text \<open>
  \<open>ITES\<close> on the samples of \<open>y = x\<close> at \<open>x = 1, 2\<close>, with one individual of one term. The
  draws build the term \<open>x\<close> with the identity, which fits with score \<open>1\<close>: this is the
  tracked best when the loop starts. In the first generation the parent's exponent is
  mutated to \<open>-2\<close>; the population is a copy of this parent, and the tracked best after the
  generation has score \<open>34/69\<close>.
\<close>

theorem ITES_best_decreases_counterexample:
  "search_start [[Fin 1], [Fin 2]] [Fin 1, Fin 2] 1 1 1 1 [7 / 8, 1 / 2, 0, 0, 0, 0, 0, 0, 0, 0]
     = Inr (1, [\<lparr> terms = [[1]], funcs = [Id], coeffs = [Fin 1], len = 1, score = Some 1 \<rparr>],
            \<lparr> terms = [[1]], funcs = [Id], coeffs = [Fin 1], len = 1, score = Some 1 \<rparr>,
            [0, 0, 0, 0, 0, 0, 0, 0])
   \<and> ITES_generation [[Fin 1], [Fin 2]] [Fin 1, Fin 2] 1 1 1 1 (Fin 2)
        ([\<lparr> terms = [[1]], funcs = [Id], coeffs = [Fin 1], len = 1, score = Some 1 \<rparr>],
         \<lparr> terms = [[1]], funcs = [Id], coeffs = [Fin 1], len = 1, score = Some 1 \<rparr>,
         [0, 0, 0, 0, 0, 0, 0, 0]) 0
     = Inr (([\<lparr> terms = [[- 2]], funcs = [Id], coeffs = [Fin (24 / 17)], len = 1, score = Some (34 / 69) \<rparr>],
             \<lparr> terms = [[- 2]], funcs = [Id], coeffs = [Fin (24 / 17)], len = 1, score = Some (34 / 69) \<rparr>,
             []), False)
   \<and> (34 / 69 :: real) < 1"
  by (simp add: search_eval draw_eval san_eval fit_eval upt_rec)

theorem ITLS_best_never_decreases_witness:
  "wf_IT 1 \<lparr> terms = [[1]], funcs = [Id], coeffs = [Fin 1], len = 1, score = Some 1 \<rparr>
   \<and> clean \<lparr> terms = [[1]], funcs = [Id], coeffs = [Fin 1], len = 1, score = Some 1 \<rparr>
   \<and> score \<lparr> terms = [[1]], funcs = [Id], coeffs = [Fin 1], len = 1, score = Some 1 \<rparr> = Some 1
   \<and> (\<exists>best' stop s'.
        ITLS_iteration [[Fin 1], [Fin 2]] [Fin 1, Fin 2] 1 (Fin 2)
          \<lparr> terms = [[1]], funcs = [Id], coeffs = [Fin 1], len = 1, score = Some 1 \<rparr> 0 = Inr (best', stop)
        \<and> score best' = Some s' \<and> 1 \<le> s')"
proof -
  let ?b = "\<lparr> terms = [[1]], funcs = [Id], coeffs = [Fin 1], len = 1, score = Some 1 \<rparr>"
  have h1: "wf_IT 1 ?b" by (simp add: wf_IT_def aligned_def)
  have h2: "clean ?b" by (simp add: clean_def all_zero_def later_duplicates_def)
  have h3: "score ?b = Some 1" by simp
  from ITLS_best_never_decreases [OF h1 h2 h3, of "[[Fin 1], [Fin 2]]" "[Fin 1, Fin 2]" "Fin 2" 0 "[]"]
  have "\<exists>best' stop s'.
        ITLS_iteration [[Fin 1], [Fin 2]] [Fin 1, Fin 2] 1 (Fin 2) ?b 0 = Inr (best', stop)
        \<and> score best' = Some s' \<and> 1 \<le> s'"
    by blast
  with h1 h2 h3 show ?thesis by (intro conjI)
qed

theorem zero_budget_runs_once_witness:
  "(- 1 :: int) < 0
   \<and> range 0 (- 1) 1 = Inl RangeError
   \<and> search_start [[Fin 1], [Fin 2]] [Fin 1, Fin 2] 1 1 1 1 [7 / 8, 1 / 2]
       = Inr (1, [\<lparr> terms = [[1]], funcs = [Id], coeffs = [Fin 1], len = 1, score = Some 1 \<rparr>],
              \<lparr> terms = [[1]], funcs = [Id], coeffs = [Fin 1], len = 1, score = Some 1 \<rparr>, [])
   \<and> ITES [[Fin 1], [Fin 2]] [Fin 1, Fin 2] 1 1 1 1 1 (- 1) (Fin 2) [7 / 8, 1 / 2] = Inl RangeError
   \<and> ITLS [[Fin 1], [Fin 2]] [Fin 1, Fin 2] 1 1 1 1 (- 1) (Fin 2) [7 / 8, 1 / 2] = Inl RangeError
   \<and> SYMTREE [[Fin 1], [Fin 2]] [Fin 1, Fin 2] (- 1) (Fin 1) 1 1 (Fin 2) = Inl RangeError"
proof -
  let ?Xs = "[[Fin 1], [Fin 2]]" and ?ys = "[Fin 1, Fin 2]"
  let ?b = "\<lparr> terms = [[1]], funcs = [Id], coeffs = [Fin 1], len = 1, score = Some 1 \<rparr>"
  have h1: "(- 1 :: int) < 0" by simp
  have h2: "search_start ?Xs ?ys 1 1 1 1 [7 / 8, 1 / 2] = Inr (1, [?b], ?b, [])"
    by (simp add: search_eval draw_eval san_eval fit_eval upt_rec)
  note c = zero_budget_runs_once [where start = 0 and stop = "- 1" and Xs = ?Xs and ys = ?ys
      and popSize = 1 and selectedSize = 1 and minSize = 1 and maxSize = 1 and expolim = 1
      and stopScore = "Fin 2" and rs = "[7 / 8, 1 / 2]" and ?X0.0 = "[Fin 1]" and Xs' = "[[Fin 2]]"
      and threshold = "Fin 1" and minI = 1 and minT = 1 and budget = "- 1"
      and start_state = "(1, [?b], ?b, [])"]
  have r: "range 0 (- 1) 1 = Inl RangeError" using c h1 by blast
  have a: "ITES ?Xs ?ys 1 1 1 1 1 (- 1) (Fin 2) [7 / 8, 1 / 2] = Inl RangeError"
    and b: "ITLS ?Xs ?ys 1 1 1 1 (- 1) (Fin 2) [7 / 8, 1 / 2] = Inl RangeError"
    using c h1 h2 by blast+
  have s: "SYMTREE ?Xs ?ys (- 1) (Fin 1) 1 1 (Fin 2) = Inl RangeError"
    using c h1 by blast
  from h1 r h2 a b s show ?thesis by (intro conjI)
qed

text \<open>
  A budget of \<open>-1\<close>: \<open>Math.ceil(-1)\<close> is \<open>-1\<close> and \<open>Array(-1)\<close> raises, so \<open>range\<close>
  returns no list and the search stops with the RangeError before its loop.
\<close>

theorem negative_budget_counterexample:
  "range 0 (- 1) 1 = Inl RangeError
   \<and> SYMTREE [[Fin 1]] [Fin 1] (- 1) (Fin 0) 0 0 (Fin 1) = Inl RangeError"
  by (simp add: range_def SYMTREE_def and_then_def Let_def)

text \<open>
  \<open>SYMTREE\<close> on two samples of \<open>y = x + 2 x\<^sup>2\<close>, at \<open>x = 1/10\<close> and \<open>x = 2/10\<close>, with the
  pruning threshold \<open>1\<close>. The root \<open>x\<close> fits with score \<open>250/253\<close>. The first iteration
  absorbs \<open>x\<^sup>2\<close>, which fits exactly with the coefficients \<open>1\<close> and \<open>2\<close>; \<open>simplifyIT\<close>
  then removes the term \<open>x\<close>, whose coefficient does not exceed the threshold, and the only
  leaf after the iteration is \<open>x\<^sup>2\<close> alone, with score \<open>34/35\<close>.
\<close>

lemma SYMTREE_best_decreases:
  "fitIT (buildRootIT 1) [[Fin (1 / 10)], [Fin (2 / 10)]] [Fin (12 / 100), Fin (28 / 100)]
     = \<lparr> terms = [[1]], funcs = [Id], coeffs = [Fin (34 / 25)], len = 1, score = Some (250 / 253) \<rparr>
   \<and> SYMTREE_iteration [[Fin (1 / 10)], [Fin (2 / 10)]] [Fin (12 / 100), Fin (28 / 100)] 1 (Fin 1) 1 1 (Fin 2)
        [\<lparr> terms = [[1]], funcs = [Id], coeffs = [Fin (34 / 25)], len = 1, score = Some (250 / 253) \<rparr>] 0
     = Inr ([\<lparr> terms = [[2]], funcs = [Id], coeffs = [Fin (124 / 17)], len = 1, score = Some (34 / 35) \<rparr>], False)
   \<and> (34 / 35 :: real) < 250 / 253"
proof -
  define Xs where "Xs = [[Fin (1 / 10)], [Fin (2 / 10)]]"
  define ys where "ys = [Fin (12 / 100), Fin (28 / 100)]"
  define leaf where "leaf = \<lparr> terms = [[1]], funcs = [Id], coeffs = [Fin (34 / 25)], len = 1, score = Some (250 / 253) \<rparr>"
  define sum where "sum = \<lparr> nt_term = [2], nt_func = Id, nt_coeff = None \<rparr>"
  define two where "two = \<lparr> terms = [[1], [2]], funcs = [Id, Id], coeffs = [Fin 1, Fin 2], len = 2, score = Some 1 \<rparr>"
  define kept where "kept = \<lparr> terms = [[2]], funcs = [Id], coeffs = [Fin 2], len = 1, score = None \<rparr>"
  define sq where "sq = \<lparr> terms = [[2]], funcs = [Id], coeffs = [Fin (124 / 17)], len = 1, score = Some (34 / 35) \<rparr>"
  define one :: jsnum where "one = Fin 1"
  define far :: jsnum where "far = Fin 2"
  define nv :: nat where "nv = 1"
  note data = Xs_def ys_def leaf_def sum_def two_def kept_def sq_def one_def far_def nv_def
  have root: "fitIT (buildRootIT 1) Xs ys = leaf"
    by (simp add: data fit_eval buildRootIT_def)
  have cands: "toExpand leaf 0 1 1 = Inr [sum]"
    by (simp add: data toExpand_def pushed_for_def interaction_def)
  have att: "attempt Xs ys leaf sum = Inr two"
    by (simp add: data attempt_def and_then_def san_eval fit_eval upt_rec numeral_2_eq_2)
  have gt: "score_gt (score two) (score leaf)"
    by (simp add: data score_gt_def)
  have imp: "improving Xs ys leaf [sum] = Inr [sum]"
    by (simp add: att gt and_then_def)
  have pass: "greedy_pass Xs ys leaf [sum] = Inr ([], two)"
    by (simp add: att gt and_then_def copyIT_same)
  have n1: "newIT two one = kept"
    by (simp add: data prune_eval upt_rec numeral_2_eq_2)
  have f1: "fitIT kept Xs ys = sq"
    by (simp add: data fit_eval power2_eq_square power4_eq_xxxx)
  have n2: "len (newIT sq one) = len sq"
    by (simp add: data prune_eval upt_rec)
  have l: "len kept \<noteq> 0" "len kept \<noteq> len two" "len sq \<noteq> 0"
    by (simp_all add: data)
  have s2: "simplifyIT sq Xs ys nv one = sq"
    by (subst simplifyIT.simps) (simp add: n2)
  have s1: "simplifyIT two Xs ys nv one = sq"
    by (subst simplifyIT.simps) (simp add: n1 f1 s2 l)
  have ch0: "children Xs ys nv one leaf [] = Inr []"
    by (subst children.simps) simp
  have ch: "children Xs ys nv one leaf [sum] = Inr [sq]"
    by (subst children.simps) (simp add: pass ch0 s1 and_then_def del: greedy_pass.simps)
  have ex: "expand Xs ys nv one 1 1 0 leaf = Inr [sq]"
    by (simp add: expand_def cands imp ch and_then_def del: improving.simps)
  have nr: "\<not> reached sq far"
    by (simp add: data reached_def)
  have it: "SYMTREE_iteration Xs ys nv one 1 1 far [leaf] 0 = Inr ([sq], False)"
    by (simp add: SYMTREE_iteration_def ex and_then_def reduce_bestScore_def nr)
  have "(34 / 35 :: real) < 250 / 253" by simp
  with root it show ?thesis unfolding data by (intro conjI)
qed

text \<open>
  The \<open>while\<close> loop of \<open>SYMTREE\<close> ends on the candidates that the first filter kept: the
  first candidate of each pass improves on the leaf, so each pass drops a candidate.
\<close>

lemma greedy_pass_aligned:
  assumes "aligned g"
  shows "\<exists>kept best. greedy_pass Xs ys g cands = Inr (kept, best)
            \<and> set kept \<subseteq> set cands \<and> aligned best"
  using assms
proof (induction cands arbitrary: g)
  case Nil
  then show ?case by simp
next
  case (Cons nt rest)
  from attempt_aligned[OF Cons.prems, of nt Xs ys] obtain s
    where s: "aligned s" and a: "attempt Xs ys g nt = Inr (fitIT s Xs ys)" by blast
  let ?a = "fitIT s Xs ys"
  have ala: "aligned (copyIT ?a)" using s by (simp add: copyIT_same fitIT_aligned)
  show ?case
  proof (cases "score_gt (score ?a) (score g)")
    case True
    from Cons.IH[OF ala] obtain kept best
      where "greedy_pass Xs ys (copyIT ?a) rest = Inr (kept, best)" "set kept \<subseteq> set rest" "aligned best"
      by blast
    then show ?thesis using True a
      by (intro exI[of _ kept] exI[of _ best]) (auto simp: and_then_def)
  next
    case False
    from Cons.IH[OF Cons.prems] obtain kept best
      where "greedy_pass Xs ys g rest = Inr (kept, best)" "set kept \<subseteq> set rest" "aligned best"
      by blast
    then show ?thesis using False a
      by (intro exI[of _ "nt # kept"] exI[of _ best]) (auto simp: and_then_def)
  qed
qed

lemma greedy_pass_drops_first:
  assumes "attempt Xs ys g nt = Inr a" and "score_gt (score a) (score g)"
    and "greedy_pass Xs ys g (nt # rest) = Inr (kept, best)"
  shows "length kept < length (nt # rest)"
proof -
  have "greedy_pass Xs ys (copyIT a) rest = Inr (kept, best)"
    using assms by (simp add: and_then_def)
  then have "length kept \<le> length rest" by (rule greedy_pass_length)
  then show ?thesis by simp
qed

lemma children_total:
  assumes "aligned leaf"
    and "\<forall>nt \<in> set cands. \<exists>a. attempt Xs ys leaf nt = Inr a \<and> score_gt (score a) (score leaf)"
  shows "\<exists>cs. children Xs ys nvars threshold leaf cands = Inr cs
            \<and> (\<forall>c \<in> set cs. aligned c) \<and> (cands \<noteq> [] \<longrightarrow> cs \<noteq> [])"
  using assms
proof (induction Xs ys nvars threshold leaf cands rule: children.induct)
  case (1 Xs ys nvars threshold leaf cands)
  show ?case
  proof (cases cands)
    case Nil
    then show ?thesis by (subst children.simps) simp
  next
    case (Cons nt rest)
    from greedy_pass_aligned[OF "1.prems"(1), of Xs ys cands] obtain kept best
      where gp: "greedy_pass Xs ys leaf cands = Inr (kept, best)"
        and sub: "set kept \<subseteq> set cands" and alb: "aligned best" by blast
    obtain a where "attempt Xs ys leaf nt = Inr a" "score_gt (score a) (score leaf)"
      using "1.prems"(2) Cons by auto
    then have lt: "length kept < length cands"
      using greedy_pass_drops_first gp Cons by blast
    have ne: "length cands \<noteq> 0" and ne': "cands \<noteq> []" using Cons by simp_all
    have "\<forall>nt \<in> set kept. \<exists>a. attempt Xs ys leaf nt = Inr a \<and> score_gt (score a) (score leaf)"
      using "1.prems"(2) sub by blast
    from "1.IH"[OF ne gp refl lt "1.prems"(1) this] obtain more
      where more: "children Xs ys nvars threshold leaf kept = Inr more" "\<forall>c \<in> set more. aligned c"
      by blast
    have "children Xs ys nvars threshold leaf cands
        = Inr (simplifyIT best Xs ys nvars threshold # more)"
      by (subst children.simps) (simp add: ne' gp lt more and_then_def)
    moreover have "aligned (simplifyIT best Xs ys nvars threshold)"
      using alb by (rule simplifyIT_aligned)
    ultimately show ?thesis using more(2) by simp
  qed
qed

lemma expand_total:
  assumes "aligned leaf"
  shows "\<exists>cs. expand Xs ys nvars threshold minI minT i leaf = Inr cs
            \<and> cs \<noteq> [] \<and> (\<forall>c \<in> set cs. aligned c)"
proof -
  obtain cands where c: "toExpand leaf i minI minT = Inr cands"
    using assms by (simp add: toExpand_def aligned_def)
  let ?kept = "filter (\<lambda>nt. \<exists>a. attempt Xs ys leaf nt = Inr a \<and> score_gt (score a) (score leaf)) cands"
  have k: "improving Xs ys leaf cands = Inr ?kept" using assms by (rule improving_aligned)
  have "\<forall>nt \<in> set ?kept. \<exists>a. attempt Xs ys leaf nt = Inr a \<and> score_gt (score a) (score leaf)"
    by simp
  from children_total[OF assms this, of nvars threshold] obtain cs
    where cs: "children Xs ys nvars threshold leaf ?kept = Inr cs" "\<forall>c \<in> set cs. aligned c"
    by blast
  have "expand Xs ys nvars threshold minI minT i leaf = Inr (if 0 < length cs then cs else [leaf])"
    by (simp add: expand_def c k cs(1) and_then_def)
  then show ?thesis using cs(2) assms by auto
qed

lemma expand_all_total:
  assumes "\<forall>leaf \<in> set leaves. aligned leaf"
  shows "\<exists>nodes. expand_all Xs ys nvars threshold minI minT i leaves = Inr nodes
            \<and> (\<forall>c \<in> set (concat nodes). aligned c) \<and> (leaves \<noteq> [] \<longrightarrow> concat nodes \<noteq> [])"
  using assms
proof (induction leaves)
  case Nil
  then show ?case by simp
next
  case (Cons leaf rest)
  then have "aligned leaf" by simp
  from expand_total[OF this, of Xs ys nvars threshold minI minT i] obtain cs
    where cs: "expand Xs ys nvars threshold minI minT i leaf = Inr cs" "cs \<noteq> []" "\<forall>c \<in> set cs. aligned c"
    by blast
  from Cons obtain more
    where more: "expand_all Xs ys nvars threshold minI minT i rest = Inr more"
      "\<forall>c \<in> set (concat more). aligned c"
    by auto
  have "expand_all Xs ys nvars threshold minI minT i (leaf # rest) = Inr (cs # more)"
    by (simp add: cs(1) more(1) and_then_def)
  then show ?case using cs more(2) by auto
qed

text \<open>
  From aligned leaves, of which there is at least one, an iteration of \<open>SYMTREE\<close> returns,
  and returns aligned leaves, at least one.
\<close>

lemma SYMTREE_iteration_total:
  assumes "\<forall>leaf \<in> set leaves. aligned leaf" and "leaves \<noteq> []"
  shows "\<exists>leaves' stop. SYMTREE_iteration Xs ys nvars threshold minI minT stopScore leaves i = Inr (leaves', stop)
            \<and> (\<forall>leaf \<in> set leaves'. aligned leaf) \<and> leaves' \<noteq> []"
proof -
  from expand_all_total[OF assms(1), of Xs ys nvars threshold minI minT i] assms(2) obtain nodes
    where n: "expand_all Xs ys nvars threshold minI minT i leaves = Inr nodes"
      "\<forall>c \<in> set (concat nodes). aligned c" "concat nodes \<noteq> []"
    by blast
  then obtain b where "reduce_bestScore (concat nodes) = Inr b"
    by (cases "concat nodes") (simp_all add: reduce_bestScore_def)
  then show ?thesis using n by (simp add: SYMTREE_iteration_def and_then_def)
qed

lemma SYMTREE_loop_total:
  assumes "\<forall>leaf \<in> set leaves. aligned leaf" and "leaves \<noteq> []"
  shows "\<exists>leaves' stop. js_some (SYMTREE_iteration Xs ys nvars threshold minI minT stopScore) leaves is = Inr (leaves', stop)
            \<and> (\<forall>leaf \<in> set leaves'. aligned leaf) \<and> leaves' \<noteq> []"
  using assms
proof (induction "is" arbitrary: leaves)
  case Nil
  then show ?case by (intro exI[of _ leaves] exI[of _ False]) simp
next
  case (Cons i "is")
  from SYMTREE_iteration_total[OF Cons.prems, of Xs ys nvars threshold minI minT stopScore i]
  obtain l1 stop1 where st: "SYMTREE_iteration Xs ys nvars threshold minI minT stopScore leaves i = Inr (l1, stop1)"
    and a1: "\<forall>leaf \<in> set l1. aligned leaf" and n1: "l1 \<noteq> []" by blast
  show ?case
  proof (cases stop1)
    case True
    then show ?thesis using st a1 n1 by (intro exI[of _ l1] exI[of _ True]) simp
  next
    case False
    from Cons.IH[OF a1 n1] show ?thesis using st False by simp
  qed
qed

lemma buildRootIT_aligned: "aligned (buildRootIT nvars)"
  by (simp add: aligned_def buildRootIT_def)

text \<open>
  \<open>SYMTREE\<close> returns an aligned model for every data set with at least one sample and
  every budget from \<open>0\<close> to \<open>2^32 - 1\<close>: no branch of the search raises, and the
  \<open>while\<close> loop ends.
\<close>

lemma foldl_bestScore_member: "foldl bestScore x zs \<in> set (x # zs)"
proof (induction zs arbitrary: x)
  case Nil
  then show ?case by simp
next
  case (Cons z zs)
  have "bestScore x z = x \<or> bestScore x z = z" by (simp add: bestScore_def)
  then show ?case using Cons[of "bestScore x z"] by auto
qed

lemma SYMTREE_returns:
  assumes "0 \<le> iterations" and "iterations \<le> 2 ^ 32 - 1"
  shows "\<exists>m. SYMTREE (X0 # Xs') ys iterations threshold minI minT stopScore = Inr m \<and> aligned m"
proof -
  let ?Xs = "X0 # Xs'"
  let ?root = "fitIT (buildRootIT (length X0)) ?Xs ys"
  have "\<exists>is. range 0 iterations 1 = Inr is"
    using assms by (simp add: range_def Let_def)
  then obtain "is" where r: "range 0 iterations 1 = Inr is" by blast
  have ar: "\<forall>leaf \<in> set [?root]. aligned leaf" by (simp add: fitIT_aligned buildRootIT_aligned)
  have nr: "[?root] \<noteq> []" by simp
  from SYMTREE_loop_total[OF ar nr, of ?Xs ys "length X0" threshold minI minT stopScore "is"]
  obtain leaves stop where l: "js_some (SYMTREE_iteration ?Xs ys (length X0) threshold minI minT stopScore) [?root] is
      = Inr (leaves, stop)" and al: "\<forall>leaf \<in> set leaves. aligned leaf" and ne: "leaves \<noteq> []"
    by blast
  obtain leaf rest where lv: "leaves = leaf # rest" using ne by (cases leaves) auto
  let ?b = "foldl bestScore leaf rest"
  have b: "reduce_bestScore leaves = Inr ?b" by (simp add: lv reduce_bestScore_def)
  have "?b \<in> set leaves" unfolding lv by (rule foldl_bestScore_member)
  then have "aligned ?b" using al by blast
  then have "aligned (simplifyIT ?b ?Xs ys (length X0) (Fin (5 / 1000)))" by (rule simplifyIT_aligned)
  moreover have "SYMTREE ?Xs ys iterations threshold minI minT stopScore
      = Inr (simplifyIT ?b ?Xs ys (length X0) (Fin (5 / 1000)))"
    by (simp add: SYMTREE_def r l b and_then_def Let_def)
  ultimately show ?thesis by simp
qed

end
